theory Spec2Isabelle
  imports
    Main
    "HOL-Library.Word"
    "HOL-Library.Char_ord"
    "HOL-Library.List_Lexorder"
    "HOL-Library.Log_Nat"
    "HOL-Library.Multiset"
begin

unbundle bit_operations_syntax

section \<open>Audio de-duplication: fingerprints, clustering and keeper selection\<close>

text \<open>
  A shallow embedding of the Go packages \<open>internal/fingerprint\<close>, \<open>internal/dedup\<close> and of
  the fingerprinting stage of \<open>cmd/audio-dedup/main.go\<close>.

  Conventions.
  \<^item> Go \<open>int\<close> and \<open>int64\<close> values are modelled by \<open>int\<close> and slice indices by \<open>nat\<close>: the
    functions below only compare them or compute \<open>i * blockSize\<close> and
    \<open>len + blockCount - 1\<close>, none of which leaves the 64-bit range while
    \<open>bitsLen * len(samples) < 2^63\<close>.
  \<^item> \<open>uint64\<close> fingerprints are \<open>64 word\<close>, \<open>int16\<close> samples are \<open>16 word\<close> read by \<open>sint\<close>.
  \<^item> Go strings are byte strings compared bytewise; they are \<open>string\<close> with the
    lexicographic order of \<open>char\<close> codes.
  \<^item> A runtime panic (index out of range) or a recursion that never returns is the value
    \<open>None\<close>.
  \<^item> The goroutines of \<open>FingerprintFromSamples\<close> write disjoint slots and are joined before
    the slots are read, so they are modelled by one pass over the blocks. Those of
    \<open>SelectKeep\<close> share the union-find structure without a lock and are modelled by their
    interleavings, under a schedule. The collector goroutine of \<open>main\<close> is not joined, and
    \<open>main\<close> is modelled with the moment of its reads as a parameter.
\<close>

subsection \<open>float64 arithmetic\<close>

text \<open>
  A finite float64 is a rational \<open>m * 2^e\<close> with \<open>|m| < 2^53\<close>. Every float64 operation
  returns the exact result rounded to the nearest such number, ties to the even significand.
  The exponent range of binary64 is not modelled: the values computed by
  \<open>FingerprintFromSamples\<close> are 0 or lie between \<open>2^-63\<close> and \<open>2^79\<close>, far inside it.
\<close>

type_synonym float64 = rat

definition pow2 :: "int \<Rightarrow> rat" where
  "pow2 e = (if 0 \<le> e then 2 ^ nat e else 1 / 2 ^ nat (- e))"

text \<open>Round to the nearest integer, ties to even.\<close>

definition roundEven :: "rat \<Rightarrow> int" where
  "roundEven y =
     (let n = \<lfloor>y\<rfloor>; r = y - of_int n
      in if r < 1 / 2 then n
         else if 1 / 2 < r then n + 1
         else if even n then n else n + 1)"

text \<open>The binary exponent of a positive rational: \<open>2^expo x \<le> x < 2^(expo x + 1)\<close>.\<close>

definition expo :: "rat \<Rightarrow> int" where
  "expo x =
     (let d = bitlen (fst (quotient_of x)) - bitlen (snd (quotient_of x))
      in if pow2 d \<le> x then d else d - 1)"

definition fl64 :: "rat \<Rightarrow> float64" where
  "fl64 x =
     (if x = 0 then 0
      else let u = pow2 (expo \<bar>x\<bar> - 52) in of_int (roundEven (x / u)) * u)"

definition representable :: "rat \<Rightarrow> bool" where
  "representable x \<longleftrightarrow> (\<exists>m e. \<bar>m\<bar> < 2 ^ 53 \<and> x = of_int m * pow2 e)"

subsection \<open>Package fingerprint\<close>

type_synonym int16 = "16 word"

text \<open>
  The body of one goroutine of \<open>FingerprintFromSamples\<close> (lines 196--222): the mean absolute
  amplitude of block \<open>i\<close>. The running sum \<open>s\<close> is a float64, so every addition rounds.
\<close>

definition accumulate :: "int16 \<Rightarrow> float64 \<Rightarrow> float64" where
  "accumulate v s =
     (if sint v < 0 then fl64 (s - of_int (sint v)) else fl64 (s + of_int (sint v)))"

definition blockAverage :: "int16 list \<Rightarrow> nat \<Rightarrow> nat \<Rightarrow> float64" where
  "blockAverage samples blockSize i =
     (let start = i * blockSize;
          end0 = start + blockSize
      in if start \<ge> length samples then 0
         else
           let end1 = (if end0 > length samples then length samples else end0);
               s = fold accumulate (take (end1 - start) (drop start samples)) 0;
               count = end1 - start
           in if count = 0 then 0 else fl64 (s / of_nat count))"

text \<open>Lines 226--236: the median of the block averages.\<close>

definition median :: "float64 list \<Rightarrow> float64" where
  "median averages =
     (let tmp = sort averages;
          n = length tmp
      in if n mod 2 = 0 then fl64 (fl64 (tmp ! (n div 2 - 1) + tmp ! (n div 2)) / 2)
         else tmp ! (n div 2))"

text \<open>Lines 239--245: the bit mask, block 0 at the highest of the \<open>blockCount\<close> bits.\<close>

definition setBit :: "float64 list \<Rightarrow> float64 \<Rightarrow> nat \<Rightarrow> nat \<Rightarrow> 64 word \<Rightarrow> 64 word" where
  "setBit averages med blockCount i m =
     (if averages ! i > med then m OR push_bit (blockCount - 1 - i) 1 else m)"

definition FingerprintFromSamples :: "int16 list \<Rightarrow> int \<Rightarrow> 64 word" where
  "FingerprintFromSamples samples bitsLen =
     (let bitsLen1 = (if bitsLen \<le> 0 then 64 else bitsLen)
      in if length samples = 0 then 0
         else
           let blockCount = nat bitsLen1;
               blockSize = (length samples + blockCount - 1) div blockCount;
               averages = map (blockAverage samples blockSize) [0..<blockCount];
               med = median averages
           in fold (setBit averages med blockCount) [0..<blockCount] 0)"

definition OnesCount64 :: "64 word \<Rightarrow> int" where
  "OnesCount64 x = int (length (filter (bit x) [0..<64]))"

definition HammingDistance :: "64 word \<Rightarrow> 64 word \<Rightarrow> int" where
  "HammingDistance a b = OnesCount64 (a XOR b)"

text \<open>
  \<open>FingerprintFromFile\<close> talks to the outside world: it looks \<open>ffmpeg\<close> up, runs it, and asks
  \<open>stat\<close> for the file size. These are the fields of an environment.
\<close>

datatype error =
    BitsLenRange
  | FfmpegMissing
  | DecodeFailed string
  | PcmParseFailed

record env =
  lookPath :: bool
  runFfmpeg :: "string \<Rightarrow> int \<Rightarrow> string + 8 word list"
  statSize :: "string \<Rightarrow> int option"
  fallbackSize :: "string \<Rightarrow> int option"

text \<open>
  Lines 63--75: \<open>binary.Read\<close> takes two bytes per sample, little endian; a clean end of input
  ends the loop, a single trailing byte is \<open>io.ErrUnexpectedEOF\<close>.
\<close>

fun parsePCM :: "8 word list \<Rightarrow> error + int16 list" where
  "parsePCM [] = Inr []"
| "parsePCM [b] = Inl PcmParseFailed"
| "parsePCM (lo # hi # rest) =
     (case parsePCM rest of
        Inl e \<Rightarrow> Inl e
      | Inr samples \<Rightarrow> Inr ((ucast lo OR push_bit 8 (ucast hi)) # samples))"

definition FingerprintFromFile :: "env \<Rightarrow> string \<Rightarrow> int \<Rightarrow> int \<Rightarrow> error + (64 word \<times> int)" where
  "FingerprintFromFile E path seconds bitsLen =
     (if bitsLen \<le> 0 \<or> bitsLen > 64 then Inl BitsLenRange
      else if \<not> lookPath E then Inl FfmpegMissing
      else
        case runFfmpeg E path seconds of
          Inl msg \<Rightarrow> Inl (DecodeFailed msg)
        | Inr raw \<Rightarrow>
            (case parsePCM raw of
               Inl e \<Rightarrow> Inl e
             | Inr samples \<Rightarrow>
                 let fp = FingerprintFromSamples samples bitsLen
                 in (case statSize E path of
                       Some sz \<Rightarrow> Inr (fp, sz)
                     | None \<Rightarrow>
                         (case fallbackSize E path of
                            None \<Rightarrow> Inr (fp, 0)
                          | Some fi \<Rightarrow> Inr (fp, fi)))))"

subsection \<open>Package dedup\<close>

record FileMeta =
  Path :: string
  Size :: int
  FP :: "64 word"

record unionFind =
  parent :: "nat list"
  rank :: "nat list"

definition newUnionFind :: "nat \<Rightarrow> unionFind" where
  "newUnionFind n = \<lparr>parent = [0..<n], rank = replicate n 0\<rparr>"

text \<open>
  \<open>find\<close> with path compression, as the grouping loop of lines 51--54 calls it: after
  \<open>wg.Wait()\<close>, when no other goroutine touches the structure. The recursion follows parent
  pointers and does not return on a cycle, hence the option type.
\<close>

partial_function (option) find_uf :: "unionFind \<Rightarrow> nat \<Rightarrow> (nat \<times> unionFind) option" where
  "find_uf u x =
     (if x < length (parent u) then
        (if parent u ! x \<noteq> x then
           Option.bind (find_uf u (parent u ! x))
             (\<lambda>(r, u'). if x < length (parent u')
                        then Some (r, u'\<lparr>parent := (parent u')[x := r]\<rparr>)
                        else None)
         else Some (x, u))
      else None)"

declare find_uf.simps [code]

text \<open>
  Lines 34--47 start one goroutine per row \<open>i\<close>, and every goroutine calls \<open>uf.union(i, j)\<close>
  on the one \<open>unionFind\<close>. Nothing orders the reads and writes of \<open>parent\<close> and \<open>rank\<close> that
  these calls make, so the calls are modelled as they interleave: a goroutine takes one
  step at a time, and a step reads or writes at most one element of \<open>parent\<close> or \<open>rank\<close>.
  Each element is one machine word, and every interleaving of such accesses is an execution
  that Go allows.

  A call of \<open>find(x)\<close> (lines 91--96) stands at one of four places: before the test
  \<open>u.parent[x] != x\<close>, before reading the argument of the inner call, before the store of
  the inner call's result \<open>r\<close>, and before the read of the returned \<open>u.parent[x]\<close>.
\<close>

datatype fpos = AtTest | AtCall | AtStore nat | AtReturn

text \<open>
  A \<open>find\<close> in progress: the argument of the innermost call, where that call stands, and
  the arguments of the calls that wait for it, innermost first.
\<close>

type_synonym fcall = "nat \<times> fpos \<times> nat list"

text \<open>
  One step of a \<open>find\<close>: the next state of the call (\<open>Inl\<close>) or the value the outermost call
  returns (\<open>Inr\<close>). \<open>None\<close> is the panic of an index out of range.
\<close>

definition findStep :: "unionFind \<Rightarrow> fcall \<Rightarrow> (unionFind \<times> (fcall + nat)) option" where
  "findStep u c =
     (case c of (x, pos, stk) \<Rightarrow>
        if x < length (parent u) then
          (case pos of
             AtTest \<Rightarrow> Some (u, Inl (x, if parent u ! x \<noteq> x then AtCall else AtReturn, stk))
           | AtCall \<Rightarrow> Some (u, Inl (parent u ! x, AtTest, x # stk))
           | AtStore r \<Rightarrow> Some (u\<lparr>parent := (parent u)[x := r]\<rparr>, Inl (x, AtReturn, stk))
           | AtReturn \<Rightarrow>
               (case stk of
                  [] \<Rightarrow> Some (u, Inr (parent u ! x))
                | y # stk' \<Rightarrow> Some (u, Inl (y, AtStore (parent u ! x), stk'))))
        else None)"

text \<open>
  Where a call of \<open>union(a, b)\<close> (lines 98--112) stands: in \<open>find(a)\<close>, with \<open>b\<close> kept for
  later; in \<open>find(b)\<close>, with \<open>ar\<close>; at the two reads of \<open>u.rank[ar] < u.rank[br]\<close> (line 104);
  at the two reads of \<open>u.rank[ar] > u.rank[br]\<close> (line 106); at the store of line 105 or 107;
  at the store of line 109; at the read and at the write of \<open>u.rank[ar]++\<close> (line 110).
\<close>

datatype upos =
    FindA nat fcall
  | FindB nat fcall
  | Less1 nat nat
  | Less2 nat nat nat
  | Greater1 nat nat
  | Greater2 nat nat nat
  | SetParent nat nat
  | SetParentInc nat nat
  | IncRead nat
  | IncWrite nat nat

text \<open>One step of a \<open>union\<close>; the inner \<open>None\<close> says that the call has returned.\<close>

definition unionStep :: "unionFind \<Rightarrow> upos \<Rightarrow> (unionFind \<times> upos option) option" where
  "unionStep u pos =
     (case pos of
        FindA b c \<Rightarrow>
          (case findStep u c of
             None \<Rightarrow> None
           | Some (u', Inl c') \<Rightarrow> Some (u', Some (FindA b c'))
           | Some (u', Inr ar) \<Rightarrow> Some (u', Some (FindB ar (b, AtTest, []))))
      | FindB ar c \<Rightarrow>
          (case findStep u c of
             None \<Rightarrow> None
           | Some (u', Inl c') \<Rightarrow> Some (u', Some (FindB ar c'))
           | Some (u', Inr br) \<Rightarrow> Some (u', if ar = br then None else Some (Less1 ar br)))
      | Less1 ar br \<Rightarrow>
          if ar < length (rank u) then Some (u, Some (Less2 ar br (rank u ! ar))) else None
      | Less2 ar br ra \<Rightarrow>
          if br < length (rank u)
          then Some (u, Some (if ra < rank u ! br then SetParent ar br else Greater1 ar br))
          else None
      | Greater1 ar br \<Rightarrow>
          if ar < length (rank u) then Some (u, Some (Greater2 ar br (rank u ! ar))) else None
      | Greater2 ar br ra \<Rightarrow>
          if br < length (rank u)
          then Some (u, Some (if ra > rank u ! br then SetParent br ar else SetParentInc br ar))
          else None
      | SetParent x y \<Rightarrow>
          if x < length (parent u) then Some (u\<lparr>parent := (parent u)[x := y]\<rparr>, None) else None
      | SetParentInc x y \<Rightarrow>
          if x < length (parent u)
          then Some (u\<lparr>parent := (parent u)[x := y]\<rparr>, Some (IncRead y))
          else None
      | IncRead ar \<Rightarrow>
          if ar < length (rank u) then Some (u, Some (IncWrite ar (rank u ! ar))) else None
      | IncWrite ar v \<Rightarrow>
          if ar < length (rank u) then Some (u\<lparr>rank := (rank u)[ar := v + 1]\<rparr>, None) else None)"

text \<open>
  The goroutine of row \<open>i\<close> (lines 37--45): at the head of its loop with the next \<open>j\<close>,
  inside \<open>uf.union(i, j)\<close>, or past its loop.
\<close>

datatype gstate = Compare nat | InUnion nat upos | Finished

definition goroutineStep ::
  "FileMeta list \<Rightarrow> int \<Rightarrow> nat \<Rightarrow> unionFind \<Rightarrow> gstate \<Rightarrow> (unionFind \<times> gstate) option" where
  "goroutineStep files threshold i u g =
     (case g of
        Compare j \<Rightarrow>
          if j < length files then
            (if i < length files then
               (if HammingDistance (FP (files ! i)) (FP (files ! j)) \<le> threshold
                then Some (u, InUnion j (FindA j (i, AtTest, [])))
                else Some (u, Compare (Suc j)))
             else None)
          else Some (u, Finished)
      | InUnion j pos \<Rightarrow>
          (case unionStep u pos of
             None \<Rightarrow> None
           | Some (u', None) \<Rightarrow> Some (u', Compare (Suc j))
           | Some (u', Some pos') \<Rightarrow> Some (u', InUnion j pos'))
      | Finished \<Rightarrow> Some (u, Finished))"

text \<open>The shared structure and the goroutines; goroutine \<open>i\<close> takes a step.\<close>

definition stepOf ::
  "FileMeta list \<Rightarrow> int \<Rightarrow> nat \<Rightarrow> unionFind \<times> gstate list \<Rightarrow> (unionFind \<times> gstate list) option" where
  "stepOf files threshold i st =
     (case st of (u, gs) \<Rightarrow>
        if i < length gs then
          (case goroutineStep files threshold i u (gs ! i) of
             None \<Rightarrow> None
           | Some (u', g') \<Rightarrow> Some (u', gs[i := g']))
        else Some (u, gs))"

text \<open>
  A schedule names the goroutine that takes each next step; a number that names no
  goroutine is passed over, and so is a goroutine that has finished. When the schedule is
  used up, the goroutines that have not finished run to their ends one after another,
  lowest row first (\<open>runToEnd\<close>), so that every schedule stands for one complete execution
  up to \<open>wg.Wait()\<close>, and every execution is that of the schedule listing its steps. The
  empty schedule is the execution in which the goroutines do not overlap. An execution
  that never reaches \<open>wg.Wait()\<close> has the value \<open>None\<close>.
\<close>

fun runSchedule ::
  "FileMeta list \<Rightarrow> int \<Rightarrow> nat list \<Rightarrow> unionFind \<times> gstate list \<Rightarrow> (unionFind \<times> gstate list) option" where
  "runSchedule files threshold [] st = Some st"
| "runSchedule files threshold (i # sched) st =
     Option.bind (stepOf files threshold i st) (runSchedule files threshold sched)"

definition firstRunning :: "gstate list \<Rightarrow> nat option" where
  "firstRunning gs = List.find (\<lambda>i. gs ! i \<noteq> Finished) [0..<length gs]"

partial_function (option) runToEnd ::
  "FileMeta list \<Rightarrow> int \<Rightarrow> unionFind \<times> gstate list \<Rightarrow> (unionFind \<times> gstate list) option" where
  "runToEnd files threshold st =
     (case firstRunning (snd st) of
        None \<Rightarrow> Some st
      | Some i \<Rightarrow> Option.bind (stepOf files threshold i st) (runToEnd files threshold))"

declare runToEnd.simps [code]

text \<open>Lines 30--47: the comparison of every pair \<open>i < j\<close> under a schedule.\<close>

definition compareAll :: "nat list \<Rightarrow> FileMeta list \<Rightarrow> int \<Rightarrow> unionFind option" where
  "compareAll sched files threshold =
     (let n = length files
      in Option.bind
           (runSchedule files threshold sched (newUnionFind n, map (\<lambda>i. Compare (Suc i)) [0..<n]))
           (\<lambda>st. Option.bind (runToEnd files threshold st) (\<lambda>(u, gs). Some u)))"

text \<open>Lines 50--54: \<open>groups[r] = append(groups[r], i)\<close> for the root \<open>r\<close> of every index.\<close>

fun groupByRoot ::
  "nat list \<Rightarrow> unionFind \<Rightarrow> (nat \<rightharpoonup> nat list) \<Rightarrow> ((nat \<rightharpoonup> nat list) \<times> unionFind) option" where
  "groupByRoot [] uf groups = Some (groups, uf)"
| "groupByRoot (i # is) uf groups =
     Option.bind (find_uf uf i) (\<lambda>(r, uf').
       groupByRoot is uf' (groups(r \<mapsto> (case groups r of None \<Rightarrow> [] | Some idxs \<Rightarrow> idxs) @ [i])))"

text \<open>
  \<open>sort.Slice\<close> is insertion sort on slices of up to 12 elements: each element moves left
  while it is less than its left neighbour. \<open>insertLess\<close> works on the reversed sorted
  prefix. On longer slices Go runs another algorithm, which also returns a permutation that
  the comparison leaves in order; when the comparison is a strict linear order on the
  elements there is one such permutation (\<open>sortSlice_unique\<close>), so the two agree. Pairwise
  distinct paths make both comparisons of \<open>SelectKeep\<close> linear.
\<close>

fun insertLess :: "('a \<Rightarrow> 'a \<Rightarrow> bool) \<Rightarrow> 'a \<Rightarrow> 'a list \<Rightarrow> 'a list" where
  "insertLess lt x [] = [x]"
| "insertLess lt x (y # ys) = (if lt x y then y # insertLess lt x ys else x # y # ys)"

definition sortSlice :: "('a \<Rightarrow> 'a \<Rightarrow> bool) \<Rightarrow> 'a list \<Rightarrow> 'a list" where
  "sortSlice lt xs = rev (fold (insertLess lt) xs [])"

text \<open>Lines 60--66: larger size first, then smaller path.\<close>

definition lessMeta :: "FileMeta \<Rightarrow> FileMeta \<Rightarrow> bool" where
  "lessMeta a b = (if Size a \<noteq> Size b then Size a > Size b else Path a < Path b)"

definition lessIdx :: "FileMeta list \<Rightarrow> nat \<Rightarrow> nat \<Rightarrow> bool" where
  "lessIdx files p q = lessMeta (files ! p) (files ! q)"

definition lessPath :: "FileMeta \<Rightarrow> FileMeta \<Rightarrow> bool" where
  "lessPath a b = (Path a < Path b)"

text \<open>
  Lines 57--68: one keeper per group. Go ranges over the map in an order of its choice; the
  model visits the roots in ascending order. The keepers are sorted by path afterwards
  (line 71), and with pairwise distinct paths the sorted list is the same for every order
  of visit (\<open>visit_order_irrelevant\<close>).
\<close>

definition keeper :: "FileMeta list \<Rightarrow> nat list \<Rightarrow> FileMeta option" where
  "keeper files idxs =
     (case sortSlice (lessIdx files) idxs of
        [] \<Rightarrow> None
      | k # _ \<Rightarrow> if k < length files then Some (files ! k) else None)"

fun selectLargest :: "FileMeta list \<Rightarrow> (nat \<rightharpoonup> nat list) \<Rightarrow> nat list \<Rightarrow> FileMeta list option" where
  "selectLargest files groups [] = Some []"
| "selectLargest files groups (r # rs) =
     (case groups r of
        None \<Rightarrow> selectLargest files groups rs
      | Some idxs \<Rightarrow>
          Option.bind (keeper files idxs) (\<lambda>k.
          Option.bind (selectLargest files groups rs) (\<lambda>ks. Some (k # ks))))"

definition grouping :: "nat list \<Rightarrow> FileMeta list \<Rightarrow> int \<Rightarrow> (nat \<rightharpoonup> nat list) option" where
  "grouping sched files threshold =
     (let n = length files
      in Option.bind (compareAll sched files threshold) (\<lambda>uf.
         Option.bind (groupByRoot [0..<n] uf Map.empty) (\<lambda>(groups, uf'). Some groups)))"

text \<open>
  \<open>SelectKeep\<close> (lines 25--73) under a schedule of its goroutines; \<open>None\<close> when the call
  does not return.
\<close>

definition SelectKeep :: "nat list \<Rightarrow> FileMeta list \<Rightarrow> int \<Rightarrow> FileMeta list option" where
  "SelectKeep sched files threshold =
     (let n = length files
      in if n = 0 then Some []
         else
           Option.bind (grouping sched files threshold) (\<lambda>groups.
           Option.bind (selectLargest files groups [0..<n]) (\<lambda>keeps.
             Some (sortSlice lessPath keeps))))"

subsection \<open>The fingerprinting stage of main\<close>

record result =
  meta :: FileMeta
  err :: "error option"

text \<open>Lines 79--83: what a worker sends for one path.\<close>

definition worker :: "env \<Rightarrow> int \<Rightarrow> string \<Rightarrow> result" where
  "worker E durationSec p =
     (case FingerprintFromFile E p durationSec 64 of
        Inl e \<Rightarrow> \<lparr>meta = \<lparr>Path = p, Size = 0, FP = 0\<rparr>, err = Some e\<rparr>
      | Inr (fp, sz) \<Rightarrow> \<lparr>meta = \<lparr>Path = p, Size = sz, FP = fp\<rparr>, err = None\<rparr>)"

text \<open>
  Lines 96--113: the collector. Its state is \<open>metas\<close>, \<open>collectErr\<close> and the warnings written
  to the log, one per failed file.
\<close>

record collected =
  metas :: "FileMeta list"
  collectErr :: "error option"
  warnings :: "(string \<times> error) list"

definition collectOne :: "result \<Rightarrow> collected \<Rightarrow> collected" where
  "collectOne res st =
     (case err res of
        Some e \<Rightarrow>
          st\<lparr>collectErr := (if collectErr st = None then Some e else collectErr st),
             warnings := warnings st @ [(Path (meta res), e)]\<rparr>
      | None \<Rightarrow> st\<lparr>metas := metas st @ [meta res]\<rparr>)"

definition collect :: "result list \<Rightarrow> collected" where
  "collect results = fold collectOne results \<lparr>metas = [], collectErr = None, warnings = []\<rparr>"

datatype fatal = NoAudioFiles | NoFingerprints | Panicked

text \<open>
  Lines 96--128 of \<open>main\<close>. \<open>results\<close> is the sequence in which the workers' results reach the
  collector. The collector runs in a goroutine of its own, and \<open>wg\<close> counts the workers
  only: \<open>wg.Wait()\<close> (line 116) returns when every worker has handed over its last result.
  The channel is unbuffered and the collector takes a result only when it is done with the
  one before, so at that moment the collector has handled every result but the last, which
  it may still be handling while \<open>main\<close> goes on. \<open>main\<close> then reads \<open>collectErr\<close> (line 119),
  \<open>len(metas)\<close> (line 123) and \<open>metas\<close> (line 128); \<open>late\<close> is the number of these reads,
  0 to 3, that come before the collector is done with the last result. \<open>sched\<close> is the
  schedule of the goroutines of \<open>SelectKeep\<close>. The value is the fatal exit, or the keep
  list with whether the notice of line 120 is printed.
\<close>

definition mainFrom ::
  "nat \<Rightarrow> nat list \<Rightarrow> result list \<Rightarrow> int \<Rightarrow> fatal + (FileMeta list \<times> bool)" where
  "mainFrom late sched results threshold =
     (let seen = (\<lambda>k. if k < late then collect (butlast results) else collect results)
      in if length (metas (seen 1)) = 0 then Inl NoFingerprints
         else case SelectKeep sched (metas (seen 2)) threshold of
                None \<Rightarrow> Inl Panicked
              | Some keeps \<Rightarrow> Inr (keeps, collectErr (seen 0) \<noteq> None))"

text \<open>
  Lines 57--128: \<open>files\<close> are the scanned paths, in the order in which their results reach
  the collector.
\<close>

definition mainBatch ::
  "env \<Rightarrow> nat \<Rightarrow> nat list \<Rightarrow> string list \<Rightarrow> int \<Rightarrow> int \<Rightarrow> fatal + (FileMeta list \<times> bool)" where
  "mainBatch E late sched files durationSec threshold =
     (if length files = 0 then Inl NoAudioFiles
      else mainFrom late sched (map (worker E durationSec) files) threshold)"

subsection \<open>Vocabulary of the statements\<close>

inductive root_of :: "nat list \<Rightarrow> nat \<Rightarrow> nat \<Rightarrow> bool" for l where
  root: "i < length l \<Longrightarrow> l ! i = i \<Longrightarrow> root_of l i i"
| step: "i < length l \<Longrightarrow> l ! i \<noteq> i \<Longrightarrow> root_of l (l ! i) r \<Longrightarrow> root_of l i r"

definition forest :: "nat list \<Rightarrow> bool" where
  "forest l \<longleftrightarrow> (\<forall>i<length l. \<exists>r. root_of l i r)"

definition same_roots :: "nat list \<Rightarrow> nat list \<Rightarrow> bool" where
  "same_roots l l' \<longleftrightarrow> length l' = length l \<and> (\<forall>i s. root_of l' i s \<longleftrightarrow> root_of l i s)"

definition uf_inv :: "unionFind \<Rightarrow> bool" where
  "uf_inv u \<longleftrightarrow> length (rank u) = length (parent u) \<and> forest (parent u)"

text \<open>A goroutine that is not inside a call of \<open>union\<close>.\<close>

fun atLoopHead :: "gstate \<Rightarrow> bool" where
  "atLoopHead (InUnion j pos) = False"
| "atLoopHead g = True"

text \<open>
  The steps that a goroutine at the head of its loop still takes when no pair of its row is
  within the threshold; \<open>n\<close> is the number of records.
\<close>

fun stepsLeft :: "nat \<Rightarrow> gstate \<Rightarrow> nat" where
  "stepsLeft n (Compare j) = Suc (n - j)"
| "stepsLeft n g = 0"

text \<open>Three records, two of them with the same fingerprint.\<close>

definition tfiles :: "FileMeta list" where
  "tfiles = [\<lparr>Path = ''a.mp3'', Size = 1000, FP = 0x0f0f0f0f0f0f0f0f\<rparr>,
             \<lparr>Path = ''b.mp3'', Size = 2000, FP = 0x0f0f0f0f0f0f0f0f\<rparr>,
             \<lparr>Path = ''c.mp3'', Size = 1500, FP = 0xf0f0f0f0f0f0f0f0\<rparr>]"

text \<open>The groups of a run, listed by root: entry \<open>r\<close> is the group whose root is \<open>r\<close>.\<close>

definition groupsOf :: "nat list \<Rightarrow> FileMeta list \<Rightarrow> int \<Rightarrow> nat list option list option" where
  "groupsOf sched files threshold =
     map_option (\<lambda>groups. map groups [0..<length files]) (grouping sched files threshold)"

text \<open>
  Four records in a chain: each fingerprint is one bit from the next and two or three bits
  from the others.
\<close>

definition chain4 :: "FileMeta list" where
  "chain4 = [\<lparr>Path = ''f00'', Size = 1, FP = 0\<rparr>, \<lparr>Path = ''f01'', Size = 2, FP = 1\<rparr>,
             \<lparr>Path = ''f02'', Size = 3, FP = 3\<rparr>, \<lparr>Path = ''f03'', Size = 4, FP = 7\<rparr>]"

text \<open>The same chain with two bits between neighbours and four or six between the others.\<close>

definition wide4 :: "FileMeta list" where
  "wide4 = [\<lparr>Path = ''g00'', Size = 1, FP = 0\<rparr>, \<lparr>Path = ''g01'', Size = 2, FP = 3\<rparr>,
            \<lparr>Path = ''g02'', Size = 3, FP = 15\<rparr>, \<lparr>Path = ''g03'', Size = 4, FP = 63\<rparr>]"

text \<open>
  A schedule for a chain of four. Row 2 runs \<open>union(2, 3)\<close> to its end (13 steps), which
  makes 2 the parent of 3 and gives 2 the rank 1. Row 0 then runs \<open>union(0, 1)\<close> up to line
  104 (5 steps): it has found the roots 0 and 1. Row 1 runs \<open>union(1, 2)\<close> up to line 104
  (5 steps): it has found the roots 1 and 2, record 1 still being its own parent. The rest
  runs row by row: row 0 finds equal ranks and stores \<open>parent[1] = 0\<close>; row 1 finds rank
  0 below rank 1 and stores \<open>parent[1] = 2\<close> over it.
\<close>

definition lostUpdate :: "nat list" where
  "lostUpdate = replicate 13 2 @ replicate 5 0 @ replicate 5 1"

text \<open>
  An environment in which the decoder is installed and returns the two samples 5 and 0 for
  every file, and every file has 4 bytes.
\<close>

definition env0 :: env where
  "env0 = \<lparr>lookPath = True, runFfmpeg = (\<lambda>p s. Inr [5, 0, 0, 0]),
            statSize = (\<lambda>p. Some 4), fallbackSize = (\<lambda>p. None)\<rparr>"

definition blockAverages :: "int16 list \<Rightarrow> nat \<Rightarrow> float64 list" where
  "blockAverages samples b =
     map (blockAverage samples ((length samples + b - 1) div b)) [0..<b]"

definition scaleSamples :: "int \<Rightarrow> int16 list \<Rightarrow> int16 list" where
  "scaleSamples c samples = map (\<lambda>x. word_of_int (c * sint x)) samples"

definition fitsInt16 :: "int \<Rightarrow> int16 list \<Rightarrow> bool" where
  "fitsInt16 c samples = list_all (\<lambda>x. - 32768 \<le> c * sint x \<and> c * sint x \<le> 32767) samples"

definition quietTone :: "int16 list" where
  "quietTone = replicate 1048575 3277 @ [3276] @ replicate 1048574 3277 @ [3276]"

definition loudTone :: "int16 list" where
  "loudTone = replicate 1048575 16385 @ [16380] @ replicate 1048574 16385 @ [16380]"

definition onGrid :: "rat \<Rightarrow> bool" where
  "onGrid x \<longleftrightarrow> (\<exists>N d. x = of_int N / of_nat d \<and> 0 \<le> N \<and> 1 \<le> d \<and> d \<le> 262144 \<and> x \<le> 32768)"

definition exactMedian :: "rat list \<Rightarrow> rat" where
  "exactMedian xs =
     (let s = sort xs; n = length s
      in if n mod 2 = 0 then (s ! (n div 2 - 1) + s ! (n div 2)) / 2 else s ! (n div 2))"

definition absSum :: "int16 list \<Rightarrow> int" where
  "absSum xs = sum_list (map (\<lambda>v. \<bar>sint v\<bar>) xs)"

definition exactMean :: "int16 list \<Rightarrow> rat" where
  "exactMean block = (if block = [] then 0 else of_int (absSum block) / of_nat (length block))"

definition exactMeans :: "int16 list \<Rightarrow> nat \<Rightarrow> rat list" where
  "exactMeans samples b =
     map (\<lambda>i. exactMean (take ((length samples + b - 1) div b)
                            (drop (i * ((length samples + b - 1) div b)) samples))) [0..<b]"

text \<open>
  The reference definition of the fingerprint, written after section 4.1 of the
  specification: blocks of size \<open>ceil(len / bits)\<close>, the mean of the absolute values of each
  block (0 for a block without samples), the median of the means (the arithmetic mean of
  the two central sorted values for an even count), one bit per block. Means and median are
  the exact ones, rational numbers.
\<close>

definition spec_blockSize :: "nat \<Rightarrow> nat \<Rightarrow> nat" where
  "spec_blockSize len bits = nat \<lceil>(of_nat len :: rat) / of_nat bits\<rceil>"

definition spec_blocks :: "int16 list \<Rightarrow> nat \<Rightarrow> int16 list list" where
  "spec_blocks samples bits =
     map (\<lambda>i. take (spec_blockSize (length samples) bits)
                 (drop (i * spec_blockSize (length samples) bits) samples)) [0..<bits]"

definition spec_rectifiedMean :: "int16 list \<Rightarrow> rat" where
  "spec_rectifiedMean block =
     (if block = [] then 0
      else of_int (sum_list (map (\<lambda>v. \<bar>sint v\<bar>) block)) / of_nat (length block))"

definition spec_median :: "rat list \<Rightarrow> rat" where
  "spec_median ms =
     (let s = sort ms; n = length s
      in if even n then (s ! (n div 2 - 1) + s ! (n div 2)) / 2 else s ! (n div 2))"

definition Fingerprint_spec :: "int16 list \<Rightarrow> nat \<Rightarrow> 64 word" where
  "Fingerprint_spec samples bits =
     (if samples = [] then 0
      else
        let means = map spec_rectifiedMean (spec_blocks samples bits);
            med = spec_median means
        in horner_sum of_bool 2 (map (\<lambda>p. means ! (bits - 1 - p) > med) [0..<bits]))"

section \<open>Union-find between calls: roots and path compression\<close>

lemma root_of_fun: "root_of l i r \<Longrightarrow> root_of l i r' \<Longrightarrow> r = r'"
proof (induction arbitrary: r' rule: root_of.induct)
  case (root i)
  from root.prems root.hyps show ?case by (cases rule: root_of.cases) auto
next
  case (step i r)
  from step.prems step.hyps(1,2) have "root_of l (l ! i) r'"
    by (cases rule: root_of.cases) auto
  then show ?case by (rule step.IH)
qed

lemma root_of_bounds: "root_of l i r \<Longrightarrow> i < length l \<and> r < length l \<and> l ! r = r"
  by (induction rule: root_of.induct) auto

lemma root_of_root: "root_of l i r \<Longrightarrow> root_of l r r"
  using root_of_bounds root_of.root by blast

lemma root_of_self: "root_of l r r \<Longrightarrow> l ! r = r"
  using root_of_bounds by blast

lemma root_of_compress:
  assumes x: "root_of l x r"
  shows "root_of l i s \<Longrightarrow> root_of (l[x := r]) i s"
proof (induction rule: root_of.induct)
  case (root i)
  show ?case
  proof (cases "i = x")
    case True
    with root x have "r = i" using root_of.root root_of_fun by blast
    with root True show ?thesis by (simp add: root_of.root)
  next
    case False
    with root show ?thesis by (simp add: root_of.root)
  qed
next
  case (step i s)
  show ?case
  proof (cases "i = x")
    case True
    have "root_of l i s" using step.hyps by (rule root_of.step)
    with x True have rs: "r = s" using root_of_fun by blast
    from step.hyps(3) have sb: "s < length l" "l ! s = s" using root_of_bounds by blast+
    have "s \<noteq> x" using sb(2) step.hyps(2) True by auto
    then have "root_of (l[x := r]) s s" using sb by (simp add: root_of.root)
    moreover have "(l[x := r]) ! i = s" using True rs step.hyps(1) by simp
    moreover have "s \<noteq> i" using \<open>s \<noteq> x\<close> True by simp
    ultimately show ?thesis using step.hyps(1) by (auto intro: root_of.step)
  next
    case False
    then have "(l[x := r]) ! i = l ! i" by simp
    with step False show ?thesis by (auto intro: root_of.step)
  qed
qed

lemma forest_same_roots:
  assumes f: "forest l" and len: "length l' = length l"
    and pres: "\<And>i s. root_of l i s \<Longrightarrow> root_of l' i s"
  shows "same_roots l l'"
  unfolding same_roots_def
proof (intro conjI allI iffI)
  show "length l' = length l" by (rule len)
next
  fix i s assume a: "root_of l' i s"
  then have "i < length l" using root_of_bounds len by fastforce
  with f obtain r where r: "root_of l i r" unfolding forest_def by blast
  from pres[OF r] a have "r = s" by (rule root_of_fun)
  with r show "root_of l i s" by simp
next
  fix i s assume "root_of l i s" then show "root_of l' i s" by (rule pres)
qed

lemma same_roots_forest:
  assumes "same_roots l l'" and "forest l"
  shows "forest l'"
  unfolding forest_def
proof (intro allI impI)
  fix i assume "i < length l'"
  then have "i < length l" using assms(1) unfolding same_roots_def by simp
  then obtain r where "root_of l i r" using assms(2) unfolding forest_def by blast
  then have "root_of l' i r" using assms(1) unfolding same_roots_def by simp
  then show "\<exists>r. root_of l' i r" by blast
qed

lemma find_uf_root:
  "root_of (parent u) x r \<Longrightarrow>
     \<exists>u'. find_uf u x = Some (r, u') \<and> rank u' = rank u
          \<and> length (parent u') = length (parent u)
          \<and> (\<forall>i s. root_of (parent u) i s \<longrightarrow> root_of (parent u') i s)"
proof (induction rule: root_of.induct)
  case (root i)
  then show ?case by (subst find_uf.simps) simp
next
  case (step i r)
  then obtain u1 where u1: "find_uf u (parent u ! i) = Some (r, u1)" "rank u1 = rank u"
    "length (parent u1) = length (parent u)"
    "\<forall>k s. root_of (parent u) k s \<longrightarrow> root_of (parent u1) k s" by blast
  have ri: "root_of (parent u) i r" using step.hyps by (rule root_of.step)
  then have ri1: "root_of (parent u1) i r" using u1(4) by blast
  let ?u' = "u1\<lparr>parent := (parent u1)[i := r]\<rparr>"
  have "find_uf u i = Some (r, ?u')"
    using step.hyps(1,2) u1(1,3) by (subst find_uf.simps) simp
  moreover have "\<forall>k s. root_of (parent u) k s \<longrightarrow> root_of (parent ?u') k s"
    using root_of_compress[OF ri1] u1(4) by simp
  ultimately show ?case using u1(2,3) by simp
qed

lemma find_uf_inv:
  assumes "uf_inv u" and "x < length (parent u)"
  shows "\<exists>r u'. find_uf u x = Some (r, u') \<and> root_of (parent u) x r \<and> uf_inv u'
            \<and> rank u' = rank u \<and> same_roots (parent u) (parent u')"
proof -
  from assms obtain r where r: "root_of (parent u) x r" unfolding uf_inv_def forest_def by blast
  from find_uf_root[OF r] obtain u' where u': "find_uf u x = Some (r, u')" "rank u' = rank u"
    "length (parent u') = length (parent u)"
    "\<forall>i s. root_of (parent u) i s \<longrightarrow> root_of (parent u') i s" by blast
  have f: "forest (parent u)" using assms(1) unfolding uf_inv_def by simp
  have sr: "same_roots (parent u) (parent u')"
    using forest_same_roots[OF f u'(3)] u'(4) by blast
  have "uf_inv u'" using assms(1) u'(2,3) same_roots_forest[OF sr f] unfolding uf_inv_def by simp
  with u' r sr show ?thesis by blast
qed

section \<open>Distances\<close>

lemma HammingDistance_sym: "HammingDistance a b = HammingDistance b a"
  by (simp add: HammingDistance_def xor.commute)

lemma HammingDistance_nonneg: "0 \<le> HammingDistance a b"
  by (simp add: HammingDistance_def OnesCount64_def)

lemma HammingDistance_self: "HammingDistance a a = 0"
  by (simp add: HammingDistance_def OnesCount64_def)

section \<open>The initial structure\<close>

lemma root_of_upt: "i < n \<Longrightarrow> root_of [0..<n] i i"
  by (rule root_of.root) simp_all

lemma root_of_upt_eq: "root_of [0..<n] i r \<Longrightarrow> r = i \<and> i < n"
proof -
  assume a: "root_of [0..<n] i r"
  then have i: "i < n" using root_of_bounds[OF a] by simp
  then have "root_of [0..<n] i i" by (rule root_of_upt)
  with a have "r = i" by (rule root_of_fun)
  with i show ?thesis by simp
qed

lemma newUnionFind_inv: "uf_inv (newUnionFind n)" "length (parent (newUnionFind n)) = n"
proof -
  have "forest [0..<n]" unfolding forest_def
  proof (intro allI impI)
    fix i assume "i < length [0..<n]"
    then have "root_of [0..<n] i i" by (simp add: root_of_upt)
    then show "\<exists>r. root_of [0..<n] i r" ..
  qed
  then show "uf_inv (newUnionFind n)" unfolding uf_inv_def newUnionFind_def by simp
  show "length (parent (newUnionFind n)) = n" unfolding newUnionFind_def by simp
qed

section \<open>Grouping by root\<close>

lemma groupByRoot_spec:
  assumes "uf_inv u" and "\<forall>i\<in>set is. i < length (parent u)"
  shows "\<exists>g' u'. groupByRoot is u g = Some (g', u') \<and>
      (\<forall>r. g' r = (if filter (\<lambda>i. root_of (parent u) i r) is = [] then g r
                   else Some ((case g r of None \<Rightarrow> [] | Some xs \<Rightarrow> xs)
                              @ filter (\<lambda>i. root_of (parent u) i r) is)))"
  using assms
proof (induction "is" arbitrary: u g)
  case Nil
  then show ?case by simp
next
  case (Cons i "is")
  have i: "i < length (parent u)" using Cons.prems(2) by simp
  from find_uf_inv[OF Cons.prems(1) i] obtain r0 u1 where f: "find_uf u i = Some (r0, u1)"
    "root_of (parent u) i r0" "uf_inv u1" "same_roots (parent u) (parent u1)" by blast
  have len1: "length (parent u1) = length (parent u)"
    and r1: "\<And>k s. root_of (parent u1) k s \<longleftrightarrow> root_of (parent u) k s"
    using f(4) unfolding same_roots_def by simp_all
  let ?old = "case g r0 of None \<Rightarrow> [] | Some xs \<Rightarrow> xs"
  let ?g1 = "g(r0 \<mapsto> ?old @ [i])"
  have isn: "\<forall>i\<in>set is. i < length (parent u1)" using Cons.prems(2) len1 by simp
  from Cons.IH[OF f(3) isn, of ?g1] obtain g' u' where g': "groupByRoot is u1 ?g1 = Some (g', u')"
    "\<forall>r. g' r = (if filter (\<lambda>i. root_of (parent u1) i r) is = [] then ?g1 r
                   else Some ((case ?g1 r of None \<Rightarrow> [] | Some xs \<Rightarrow> xs)
                              @ filter (\<lambda>i. root_of (parent u1) i r) is))" by blast
  have run: "groupByRoot (i # is) u g = Some (g', u')" using f(1) g'(1) by simp
  have "\<forall>r. g' r = (if filter (\<lambda>i. root_of (parent u) i r) (i # is) = [] then g r
                   else Some ((case g r of None \<Rightarrow> [] | Some xs \<Rightarrow> xs)
                              @ filter (\<lambda>i. root_of (parent u) i r) (i # is)))"
  proof
    fix r
    have gr: "g' r = (if filter (\<lambda>i. root_of (parent u) i r) is = [] then ?g1 r
                   else Some ((case ?g1 r of None \<Rightarrow> [] | Some xs \<Rightarrow> xs)
                              @ filter (\<lambda>i. root_of (parent u) i r) is))"
      using g'(2) r1 by simp
    show "g' r = (if filter (\<lambda>i. root_of (parent u) i r) (i # is) = [] then g r
                   else Some ((case g r of None \<Rightarrow> [] | Some xs \<Rightarrow> xs)
                              @ filter (\<lambda>i. root_of (parent u) i r) (i # is)))"
    proof (cases "r = r0")
      case True
      then have "root_of (parent u) i r" using f(2) by simp
      then show ?thesis using gr True by simp
    next
      case False
      then have "\<not> root_of (parent u) i r" using f(2) root_of_fun by blast
      then show ?thesis using gr False by simp
    qed
  qed
  with run show ?case by blast
qed

section \<open>sort.Slice\<close>

lemma insertLess_mset: "mset (insertLess lt x ys) = add_mset x (mset ys)"
  by (induction ys) simp_all

lemma fold_insertLess_mset: "mset (fold (insertLess lt) xs acc) = mset xs + mset acc"
  by (induction xs arbitrary: acc) (simp_all add: insertLess_mset)

lemma sortSlice_mset: "mset (sortSlice lt xs) = mset xs"
  by (simp add: sortSlice_def fold_insertLess_mset)

lemma sortSlice_set: "set (sortSlice lt xs) = set xs"
  using sortSlice_mset[of lt xs] by (metis set_mset_mset)

lemma insertLess_set: "set (insertLess lt x ys) = insert x (set ys)"
  using insertLess_mset[of lt x ys] by (metis set_mset_mset set_mset_add_mset_insert)

lemma insertLess_sorted:
  assumes asym: "\<And>a b. lt a b \<Longrightarrow> \<not> lt b a"
    and ntrans: "\<And>a b c. \<not> lt a b \<Longrightarrow> \<not> lt b c \<Longrightarrow> \<not> lt a c"
  shows "sorted_wrt (\<lambda>a b. \<not> lt a b) ys \<Longrightarrow> sorted_wrt (\<lambda>a b. \<not> lt a b) (insertLess lt x ys)"
proof (induction ys)
  case Nil
  then show ?case by simp
next
  case (Cons y ys)
  show ?case
  proof (cases "lt x y")
    case True
    have "\<forall>z\<in>set (insertLess lt x ys). \<not> lt y z"
      using Cons.prems asym[OF True] by (simp add: insertLess_set)
    moreover have "sorted_wrt (\<lambda>a b. \<not> lt a b) (insertLess lt x ys)"
      using Cons.IH Cons.prems by simp
    ultimately show ?thesis using True by simp
  next
    case False
    have "\<forall>z\<in>set ys. \<not> lt x z" using Cons.prems False ntrans by auto
    then show ?thesis using False Cons.prems by simp
  qed
qed

lemma fold_insertLess_sorted:
  assumes asym: "\<And>a b. lt a b \<Longrightarrow> \<not> lt b a"
    and ntrans: "\<And>a b c. \<not> lt a b \<Longrightarrow> \<not> lt b c \<Longrightarrow> \<not> lt a c"
  shows "sorted_wrt (\<lambda>a b. \<not> lt a b) acc \<Longrightarrow>
         sorted_wrt (\<lambda>a b. \<not> lt a b) (fold (insertLess lt) xs acc)"
proof (induction xs arbitrary: acc)
  case Nil
  then show ?case by simp
next
  case (Cons x xs)
  have "sorted_wrt (\<lambda>a b. \<not> lt a b) (insertLess lt x acc)"
    by (rule insertLess_sorted[OF asym ntrans Cons.prems])
  then show ?case using Cons.IH by simp
qed

lemma sortSlice_sorted:
  assumes asym: "\<And>a b. lt a b \<Longrightarrow> \<not> lt b a"
    and ntrans: "\<And>a b c. \<not> lt a b \<Longrightarrow> \<not> lt b c \<Longrightarrow> \<not> lt a c"
  shows "sorted_wrt (\<lambda>a b. \<not> lt b a) (sortSlice lt xs)"
proof -
  have e: "sorted_wrt (\<lambda>a b. \<not> lt a b) []" by simp
  have "sorted_wrt (\<lambda>a b. \<not> lt a b) (fold (insertLess lt) xs [])"
    by (rule fold_insertLess_sorted[OF asym ntrans e])
  then show ?thesis by (simp add: sortSlice_def sorted_wrt_rev)
qed

lemma sortSlice_head:
  assumes asym: "\<And>a b. lt a b \<Longrightarrow> \<not> lt b a"
    and ntrans: "\<And>a b c. \<not> lt a b \<Longrightarrow> \<not> lt b c \<Longrightarrow> \<not> lt a c"
    and ne: "xs \<noteq> []"
  shows "\<exists>k rest. sortSlice lt xs = k # rest \<and> k \<in> set xs \<and> (\<forall>j\<in>set xs. \<not> lt j k)"
proof -
  have "sortSlice lt xs \<noteq> []" using ne sortSlice_set[of lt xs] by auto
  then obtain k rest where kr: "sortSlice lt xs = k # rest" by (cases "sortSlice lt xs") auto
  have "sorted_wrt (\<lambda>a b. \<not> lt b a) (sortSlice lt xs)"
    by (rule sortSlice_sorted[OF asym ntrans])
  then have s: "sorted_wrt (\<lambda>a b. \<not> lt b a) (k # rest)" using kr by simp
  have kk: "\<not> lt k k" using asym by blast
  have "set xs = insert k (set rest)" using sortSlice_set[of lt xs] kr by simp
  then have "k \<in> set xs" "\<forall>j\<in>set xs. \<not> lt j k" using s kk by auto
  with kr show ?thesis by blast
qed

section \<open>The keeper of a group\<close>

lemma lessMeta_asym: "lessMeta a b \<Longrightarrow> \<not> lessMeta b a"
  unfolding lessMeta_def by (auto split: if_splits)

lemma lessMeta_ntrans: "\<not> lessMeta a b \<Longrightarrow> \<not> lessMeta b c \<Longrightarrow> \<not> lessMeta a c"
  unfolding lessMeta_def by (auto split: if_splits)

lemma lessPath_sorted: "sorted (map Path (sortSlice lessPath ks))"
proof -
  have "sorted_wrt (\<lambda>a b. \<not> lessPath b a) (sortSlice lessPath ks)"
    by (rule sortSlice_sorted) (auto simp: lessPath_def)
  then have "sorted_wrt (\<lambda>a b. Path a \<le> Path b) (sortSlice lessPath ks)"
    by (simp add: lessPath_def not_less)
  then show ?thesis by (simp add: sorted_wrt_map)
qed

lemma keeper_spec:
  assumes ne: "idxs \<noteq> []" and bnd: "\<forall>i\<in>set idxs. i < length files"
  shows "\<exists>k. keeper files idxs = Some (files ! k) \<and> k \<in> set idxs
            \<and> (\<forall>j\<in>set idxs. \<not> lessIdx files j k)"
proof -
  have asym: "\<And>a b. lessIdx files a b \<Longrightarrow> \<not> lessIdx files b a"
    unfolding lessIdx_def by (rule lessMeta_asym)
  have ntrans: "\<And>a b c. \<not> lessIdx files a b \<Longrightarrow> \<not> lessIdx files b c \<Longrightarrow> \<not> lessIdx files a c"
    unfolding lessIdx_def by (rule lessMeta_ntrans)
  have "\<exists>k rest. sortSlice (lessIdx files) idxs = k # rest \<and> k \<in> set idxs
           \<and> (\<forall>j\<in>set idxs. \<not> lessIdx files j k)"
    by (rule sortSlice_head[OF asym ntrans ne])
  then obtain k rest where k: "sortSlice (lessIdx files) idxs = k # rest" "k \<in> set idxs"
    "\<forall>j\<in>set idxs. \<not> lessIdx files j k" by blast
  then have "keeper files idxs = Some (files ! k)" using bnd by (simp add: keeper_def)
  with k show ?thesis by blast
qed

lemma selectLargest_singletons:
  "\<forall>r\<in>set rs. r < length files \<and> g r = Some [r] \<Longrightarrow>
     selectLargest files g rs = Some (map ((!) files) rs)"
  by (induction rs) (simp_all add: keeper_def sortSlice_def)

lemma filter_eq_upt: "r < n \<Longrightarrow> filter (\<lambda>i. i = r) [0..<n] = [r]"
  by (induction n) (auto simp: less_Suc_eq)

section \<open>One sorted permutation\<close>

lemma sorted_wrt_unique:
  assumes tot: "\<And>a b. a \<in> set xs \<Longrightarrow> b \<in> set xs \<Longrightarrow> a \<noteq> b \<Longrightarrow> lt a b \<or> lt b a"
    and ms: "mset ys = mset xs"
    and sx: "sorted_wrt (\<lambda>a b. \<not> lt b a) xs" and sy: "sorted_wrt (\<lambda>a b. \<not> lt b a) ys"
  shows "ys = xs"
  using assms
proof (induction xs arbitrary: ys)
  case Nil
  then show ?case by simp
next
  case (Cons x xs)
  from Cons.prems(2) have "ys \<noteq> []" by auto
  then obtain y ys' where ys: "ys = y # ys'" by (cases ys) auto
  have sets: "set ys = set (x # xs)" using Cons.prems(2) by (rule mset_eq_setD)
  have xy: "x = y"
  proof (rule ccontr)
    assume ne: "x \<noteq> y"
    have "y \<in> set xs" using sets ys ne by auto
    then have 1: "\<not> lt y x" using Cons.prems(3) by simp
    have "x \<in> set ys'" using sets ys ne by auto
    then have 2: "\<not> lt x y" using Cons.prems(4) ys by simp
    have "x \<in> set (x # xs)" "y \<in> set (x # xs)" using sets ys by auto
    from Cons.prems(1)[OF this ne] show False using 1 2 by simp
  qed
  have ms': "mset ys' = mset xs" using Cons.prems(2) ys xy by simp
  have tot': "\<And>a b. a \<in> set xs \<Longrightarrow> b \<in> set xs \<Longrightarrow> a \<noteq> b \<Longrightarrow> lt a b \<or> lt b a"
    using Cons.prems(1) by simp
  have "ys' = xs"
    using tot' ms' by (rule Cons.IH) (use Cons.prems(3,4) ys in simp_all)
  then show ?case using ys xy by simp
qed

lemma sortSlice_unique:
  assumes asym: "\<And>a b. lt a b \<Longrightarrow> \<not> lt b a"
    and ntrans: "\<And>a b c. \<not> lt a b \<Longrightarrow> \<not> lt b c \<Longrightarrow> \<not> lt a c"
    and tot: "\<And>a b. a \<in> set xs \<Longrightarrow> b \<in> set xs \<Longrightarrow> a \<noteq> b \<Longrightarrow> lt a b \<or> lt b a"
    and ms: "mset ys = mset xs" and sy: "sorted_wrt (\<lambda>a b. \<not> lt b a) ys"
  shows "ys = sortSlice lt xs"
proof -
  have tot': "\<And>a b. a \<in> set (sortSlice lt xs) \<Longrightarrow> b \<in> set (sortSlice lt xs) \<Longrightarrow> a \<noteq> b
      \<Longrightarrow> lt a b \<or> lt b a"
    using tot by (simp add: sortSlice_set)
  have ms': "mset ys = mset (sortSlice lt xs)" using ms by (simp add: sortSlice_mset)
  have sx: "sorted_wrt (\<lambda>a b. \<not> lt b a) (sortSlice lt xs)"
    by (rule sortSlice_sorted[OF asym ntrans])
  from tot' ms' sx sy show ?thesis by (rule sorted_wrt_unique)
qed

lemma keeps_order_irrelevant:
  assumes d: "distinct (map Path ks)" and ms: "mset ks' = mset ks"
  shows "sortSlice lessPath ks' = sortSlice lessPath ks"
proof (rule sortSlice_unique)
  show "\<And>a b. lessPath a b \<Longrightarrow> \<not> lessPath b a" by (simp add: lessPath_def)
  show "\<And>a b c. \<not> lessPath a b \<Longrightarrow> \<not> lessPath b c \<Longrightarrow> \<not> lessPath a c"
    by (auto simp: lessPath_def)
  show "\<And>a b. a \<in> set ks \<Longrightarrow> b \<in> set ks \<Longrightarrow> a \<noteq> b \<Longrightarrow> lessPath a b \<or> lessPath b a"
  proof -
    fix a b assume ab: "a \<in> set ks" "b \<in> set ks" "a \<noteq> b"
    have "inj_on Path (set ks)" using d by (simp add: distinct_map)
    then have "Path a \<noteq> Path b" using ab by (auto dest: inj_onD)
    then show "lessPath a b \<or> lessPath b a" by (auto simp: lessPath_def)
  qed
  show "mset (sortSlice lessPath ks') = mset ks" using ms by (simp add: sortSlice_mset)
  show "sorted_wrt (\<lambda>a b. \<not> lessPath b a) (sortSlice lessPath ks')"
    by (rule sortSlice_sorted) (auto simp: lessPath_def)
qed

lemma selectLargest_map:
  "selectLargest files g rs
     = (if \<forall>r\<in>set rs. \<forall>idxs. g r = Some idxs \<longrightarrow> keeper files idxs \<noteq> None
        then Some (map (\<lambda>r. the (keeper files (the (g r)))) (filter (\<lambda>r. g r \<noteq> None) rs))
        else None)"
proof (induction rs)
  case Nil
  then show ?case by simp
next
  case (Cons r rs)
  show ?case
  proof (cases "g r")
    case None
    then show ?thesis using Cons.IH by simp
  next
    case (Some idxs)
    then show ?thesis using Cons.IH by (cases "keeper files idxs") auto
  qed
qed

lemma visit_order_irrelevant:
  assumes p: "mset rs' = mset rs" and k: "selectLargest files g rs = Some ks"
    and d: "distinct (map Path ks)"
  shows "\<exists>ks'. selectLargest files g rs' = Some ks'
           \<and> sortSlice lessPath ks' = sortSlice lessPath ks"
proof -
  let ?f = "\<lambda>r. the (keeper files (the (g r)))"
  let ?P = "\<lambda>r. g r \<noteq> None"
  have s: "set rs' = set rs" using p by (rule mset_eq_setD)
  have c: "\<forall>r\<in>set rs. \<forall>idxs. g r = Some idxs \<longrightarrow> keeper files idxs \<noteq> None"
    using k unfolding selectLargest_map[of files g rs] by (simp split: if_splits)
  have ks: "ks = map ?f (filter ?P rs)"
    using k c unfolding selectLargest_map[of files g rs] by simp
  have ks': "selectLargest files g rs' = Some (map ?f (filter ?P rs'))"
    using c s unfolding selectLargest_map[of files g rs'] by simp
  have "mset (map ?f (filter ?P rs')) = mset (map ?f (filter ?P rs))"
    using p by (simp only: mset_map mset_filter)
  then have "mset (map ?f (filter ?P rs')) = mset ks" using ks by simp
  from keeps_order_irrelevant[OF d this] ks' show ?thesis by blast
qed

section \<open>Negative thresholds\<close>

lemma goroutineStep_negative:
  assumes t: "t < 0" and g: "atLoopHead g" and i: "i < length files"
  shows "\<exists>g'. goroutineStep files t i u g = Some (u, g') \<and> atLoopHead g'
            \<and> stepsLeft (length files) g' \<le> stepsLeft (length files) g
            \<and> (g \<noteq> Finished \<longrightarrow> stepsLeft (length files) g' < stepsLeft (length files) g)"
proof (cases g)
  case (Compare j)
  have "\<not> HammingDistance (FP (files ! i)) (FP (files ! j)) \<le> t"
    using t HammingDistance_nonneg[of "FP (files ! i)" "FP (files ! j)"] by simp
  then show ?thesis using Compare i by (auto simp: goroutineStep_def)
next
  case (InUnion j pos)
  then show ?thesis using g by simp
next
  case Finished
  then show ?thesis by (simp add: goroutineStep_def)
qed

lemma sum_list_update_less:
  fixes f :: "'a \<Rightarrow> nat"
  assumes "i < length xs" and "f y < f (xs ! i)"
  shows "sum_list (map f (xs[i := y])) < sum_list (map f xs)"
  using assms
proof (induction xs arbitrary: i)
  case Nil
  then show ?case by simp
next
  case (Cons x xs)
  then show ?case by (cases i) auto
qed

lemma sum_list_update_le:
  fixes f :: "'a \<Rightarrow> nat"
  assumes "i < length xs" and "f y \<le> f (xs ! i)"
  shows "sum_list (map f (xs[i := y])) \<le> sum_list (map f xs)"
  using assms
proof (induction xs arbitrary: i)
  case Nil
  then show ?case by simp
next
  case (Cons x xs)
  then show ?case by (cases i) auto
qed

lemma stepOf_negative:
  assumes t: "t < 0" and a: "list_all atLoopHead gs" and l: "length gs = length files"
  shows "\<exists>gs'. stepOf files t i (u, gs) = Some (u, gs') \<and> list_all atLoopHead gs'
            \<and> length gs' = length files
            \<and> (i < length gs \<and> gs ! i \<noteq> Finished \<longrightarrow>
                 sum_list (map (stepsLeft (length files)) gs')
                   < sum_list (map (stepsLeft (length files)) gs))"
proof (cases "i < length gs")
  case False
  then show ?thesis using a l by (simp add: stepOf_def)
next
  case True
  then have gi: "atLoopHead (gs ! i)" using a by (simp add: list_all_length)
  have i: "i < length files" using True l by simp
  from goroutineStep_negative[OF t gi i, of u] obtain g' where
    g': "goroutineStep files t i u (gs ! i) = Some (u, g')" "atLoopHead g'"
      "gs ! i \<noteq> Finished \<longrightarrow> stepsLeft (length files) g' < stepsLeft (length files) (gs ! i)"
    by blast
  have s: "stepOf files t i (u, gs) = Some (u, gs[i := g'])"
    using True g'(1) by (simp add: stepOf_def)
  have a': "list_all atLoopHead (gs[i := g'])"
    using a g'(2) set_update_subset_insert[of gs i g'] by (auto simp: list_all_iff)
  have d: "gs ! i \<noteq> Finished \<longrightarrow>
      sum_list (map (stepsLeft (length files)) (gs[i := g']))
        < sum_list (map (stepsLeft (length files)) gs)"
    using sum_list_update_less[OF True, of "stepsLeft (length files)" g'] g'(3) by blast
  show ?thesis using s a' l d by simp
qed

lemma runSchedule_negative:
  assumes t: "t < 0"
  shows "list_all atLoopHead gs \<Longrightarrow> length gs = length files \<Longrightarrow>
         \<exists>gs'. runSchedule files t sched (u, gs) = Some (u, gs') \<and> list_all atLoopHead gs'
               \<and> length gs' = length files"
proof (induction sched arbitrary: gs)
  case Nil
  then show ?case by simp
next
  case (Cons i sched)
  from stepOf_negative[OF t Cons.prems, of i u] obtain gs1 where
    g1: "stepOf files t i (u, gs) = Some (u, gs1)" "list_all atLoopHead gs1"
      "length gs1 = length files" by blast
  from Cons.IH[OF g1(2,3)] obtain gs' where
    "runSchedule files t sched (u, gs1) = Some (u, gs')" "list_all atLoopHead gs'"
    "length gs' = length files" by blast
  then show ?case using g1(1) by simp
qed

lemma firstRunning_Some:
  "firstRunning gs = Some i \<Longrightarrow> i < length gs \<and> gs ! i \<noteq> Finished"
  unfolding firstRunning_def by (auto simp: find_Some_iff)

lemma runToEnd_negative:
  assumes t: "t < 0"
  shows "list_all atLoopHead gs \<Longrightarrow> length gs = length files \<Longrightarrow>
         \<exists>gs'. runToEnd files t (u, gs) = Some (u, gs')"
proof (induction "sum_list (map (stepsLeft (length files)) gs)" arbitrary: gs rule: less_induct)
  case less
  show ?case
  proof (cases "firstRunning gs")
    case None
    then have "runToEnd files t (u, gs) = Some (u, gs)" by (subst runToEnd.simps) simp
    then show ?thesis by blast
  next
    case (Some i)
    then have i: "i < length gs \<and> gs ! i \<noteq> Finished" by (rule firstRunning_Some)
    from stepOf_negative[OF t less.prems, of i u] i obtain gs1 where
      g1: "stepOf files t i (u, gs) = Some (u, gs1)" "list_all atLoopHead gs1"
        "length gs1 = length files"
        "sum_list (map (stepsLeft (length files)) gs1) < sum_list (map (stepsLeft (length files)) gs)"
      by blast
    from less.hyps[OF g1(4) g1(2,3)] obtain gs' where
      e: "runToEnd files t (u, gs1) = Some (u, gs')" by blast
    have "runToEnd files t (u, gs) = runToEnd files t (u, gs1)"
      using Some g1(1) by (subst runToEnd.simps) simp
    then show ?thesis using e by simp
  qed
qed

lemma compareAll_negative:
  assumes t: "t < 0"
  shows "compareAll sched files t = Some (newUnionFind (length files))"
proof -
  let ?n = "length files"
  let ?gs = "map (\<lambda>i. Compare (Suc i)) [0..<?n]"
  have a: "list_all atLoopHead ?gs" by (simp add: list_all_iff)
  have l: "length ?gs = ?n" by simp
  from runSchedule_negative[OF t a l, of sched "newUnionFind ?n"] obtain gs1 where
    g1: "runSchedule files t sched (newUnionFind ?n, ?gs) = Some (newUnionFind ?n, gs1)"
      "list_all atLoopHead gs1" "length gs1 = ?n" by blast
  from runToEnd_negative[OF t g1(2,3), of "newUnionFind ?n"] obtain gs2 where
    "runToEnd files t (newUnionFind ?n, gs1) = Some (newUnionFind ?n, gs2)" by blast
  then show ?thesis using g1(1) by (simp add: compareAll_def)
qed

lemma grouping_identity:
  "\<exists>g. groupByRoot [0..<n] (newUnionFind n) Map.empty = Some g \<and> (\<forall>r<n. fst g r = Some [r])"
proof -
  have b: "\<forall>i\<in>set [0..<n]. i < length (parent (newUnionFind n))"
    by (simp add: newUnionFind_inv(2))
  from groupByRoot_spec[OF newUnionFind_inv(1) b, of Map.empty] obtain g' u' where
    g: "groupByRoot [0..<n] (newUnionFind n) Map.empty = Some (g', u')"
      "\<forall>r. g' r = (if filter (\<lambda>i. root_of (parent (newUnionFind n)) i r) [0..<n] = [] then None
                   else Some ([] @ filter (\<lambda>i. root_of (parent (newUnionFind n)) i r) [0..<n]))"
    by auto
  have "g' r = Some [r]" if r: "r < n" for r
  proof -
    have "root_of (parent (newUnionFind n)) i r \<longleftrightarrow> i = r" for i
      using root_of_upt[OF r] root_of_upt_eq[of n i r] by (auto simp: newUnionFind_def)
    then have "filter (\<lambda>i. root_of (parent (newUnionFind n)) i r) [0..<n] = [r]"
      using filter_eq_upt[OF r] by simp
    then show ?thesis using g(2) by simp
  qed
  then show ?thesis using g(1) by simp
qed

lemma SelectKeep_negative:
  assumes t: "t < 0"
  shows "SelectKeep sched files t = Some (sortSlice lessPath files)"
proof (cases "length files = 0")
  case True
  then show ?thesis by (simp add: SelectKeep_def sortSlice_def)
next
  case False
  let ?n = "length files"
  from grouping_identity[of ?n] obtain g u' where
    g: "groupByRoot [0..<?n] (newUnionFind ?n) Map.empty = Some (g, u')" "\<forall>r<?n. g r = Some [r]"
    by auto
  have gr: "grouping sched files t = Some g"
    using compareAll_negative[OF t, of sched files] g(1) by (simp add: grouping_def)
  have "\<forall>r\<in>set [0..<?n]. r < ?n \<and> g r = Some [r]" using g(2) by simp
  then have "selectLargest files g [0..<?n] = Some (map ((!) files) [0..<?n])"
    by (rule selectLargest_singletons)
  then have "selectLargest files g [0..<?n] = Some files" by (simp add: map_nth)
  then show ?thesis using False gr by (simp add: SelectKeep_def)
qed

text \<open>
  C6. \<open>SelectKeep\<close> has no error result and does not look at the sign of the threshold.
  Below zero no pair is within the threshold, so no goroutine calls \<open>union\<close>: under every
  schedule every record is a cluster of its own and all records are returned, ordered by
  path.
\<close>

theorem negative_threshold_keeps_every_record:
  "threshold < 0 \<Longrightarrow>
     \<exists>ks. SelectKeep sched files threshold = Some ks \<and> mset ks = mset files
          \<and> sorted (map Path ks)"
  using SelectKeep_negative[of threshold sched files] lessPath_sorted[of files]
  by (simp add: sortSlice_mset)

theorem negative_threshold_keeps_every_record_witness:
  "(-1::int) < 0 \<and>
     (\<exists>ks. SelectKeep [2, 0, 1, 0] tfiles (-1) = Some ks \<and> mset ks = mset tfiles
           \<and> sorted (map Path ks))"
proof -
  have n: "(-1::int) < 0" by simp
  from negative_threshold_keeps_every_record[OF n, of "[2, 0, 1, 0]" tfiles] n
  show ?thesis by simp
qed

text \<open>The claim fails as stated: with threshold -1 the call returns a keep-set.\<close>

theorem negative_threshold_not_rejected: "SelectKeep [] tfiles (-1) = Some tfiles"
  unfolding tfiles_def by code_simp

section \<open>Unions that overlap\<close>

lemma chain4_distances:
  "map (\<lambda>(i, j). HammingDistance (FP (chain4 ! i)) (FP (chain4 ! j)))
     [(0, 1), (0, 2), (0, 3), (1, 2), (1, 3), (2, 3)] = [1, 2, 3, 1, 2, 1]"
  unfolding chain4_def by code_simp

lemma wide4_distances:
  "map (\<lambda>(i, j). HammingDistance (FP (wide4 ! i)) (FP (wide4 ! j)))
     [(0, 1), (0, 2), (0, 3), (1, 2), (1, 3), (2, 3)] = [2, 4, 6, 2, 4, 2]"
  unfolding wide4_def by code_simp

lemma lostUpdate_midway:
  "runSchedule chain4 1 lostUpdate (newUnionFind 4, map (\<lambda>i. Compare (Suc i)) [0..<4])
     = Some (\<lparr>parent = [0, 1, 2, 2], rank = [0, 0, 1, 0]\<rparr>,
             [InUnion 1 (Less1 0 1), InUnion 2 (Less1 1 2), Finished, Compare 4])"
  unfolding chain4_def lostUpdate_def by code_simp

lemma lostUpdate_parents:
  "compareAll lostUpdate chain4 1 = Some \<lparr>parent = [0, 2, 2, 2], rank = [1, 0, 1, 0]\<rparr>"
  unfolding chain4_def lostUpdate_def by code_simp

lemma serial_parents:
  "compareAll [] chain4 1 = Some \<lparr>parent = [0, 0, 0, 0], rank = [1, 0, 0, 0]\<rparr>"
  unfolding chain4_def by code_simp

text \<open>
  C2. The four records of \<open>chain4\<close> are one connected component at threshold 1: records 0
  and 1, 1 and 2, 2 and 3 are one bit apart. When the goroutines do not overlap they land in
  one group. Under \<open>lostUpdate\<close> the store \<open>parent[1] = 0\<close> is overwritten, and records 0 and
  1 land in different groups, \<open>[0]\<close> and \<open>[1, 2, 3]\<close>.
\<close>

theorem overlapping_unions_split_a_component:
  "HammingDistance (FP (chain4 ! 0)) (FP (chain4 ! 1)) = 1
   \<and> HammingDistance (FP (chain4 ! 1)) (FP (chain4 ! 2)) = 1
   \<and> HammingDistance (FP (chain4 ! 2)) (FP (chain4 ! 3)) = 1
   \<and> groupsOf [] chain4 1 = Some [Some [0, 1, 2, 3], None, None, None]
   \<and> groupsOf lostUpdate chain4 1 = Some [Some [0], None, Some [1, 2, 3], None]"
  unfolding chain4_def lostUpdate_def by code_simp

text \<open>
  C3. \<open>chain4\<close> has pairwise distinct paths and is one cluster at threshold 1, whose largest
  record is \<open>f03\<close>. Under \<open>lostUpdate\<close>, \<open>SelectKeep\<close> returns two records for it.
\<close>

theorem overlapping_unions_keep_two_records_of_a_cluster:
  "distinct (map Path chain4)
   \<and> SelectKeep lostUpdate chain4 1
       = Some [\<lparr>Path = ''f00'', Size = 1, FP = 0\<rparr>, \<lparr>Path = ''f03'', Size = 4, FP = 7\<rparr>]"
  unfolding chain4_def lostUpdate_def by code_simp

text \<open>
  C8. The records of \<open>wide4\<close> have the same pairs within the threshold at 2 and at 3. At
  threshold 2, without overlap, they are one cluster; at threshold 3, under \<open>lostUpdate\<close>,
  they are two, and neither holds the cluster of threshold 2.
\<close>

theorem overlapping_unions_break_monotonicity:
  "groupsOf [] wide4 2 = Some [Some [0, 1, 2, 3], None, None, None]
   \<and> groupsOf lostUpdate wide4 3 = Some [Some [0], None, Some [1, 2, 3], None]"
  unfolding wide4_def lostUpdate_def by code_simp

text \<open>
  C9. \<open>chain4\<close> and its reversal hold the same records, with pairwise distinct paths. Without
  overlap both give the keep list \<open>[f03]\<close>; under \<open>lostUpdate\<close> the reversal gives
  \<open>[f02, f03]\<close>.
\<close>

theorem overlapping_unions_break_permutation_invariance:
  "mset (rev chain4) = mset chain4
   \<and> SelectKeep [] chain4 1 = Some [\<lparr>Path = ''f03'', Size = 4, FP = 7\<rparr>]
   \<and> SelectKeep [] (rev chain4) 1 = Some [\<lparr>Path = ''f03'', Size = 4, FP = 7\<rparr>]
   \<and> SelectKeep lostUpdate (rev chain4) 1
       = Some [\<lparr>Path = ''f02'', Size = 3, FP = 3\<rparr>, \<lparr>Path = ''f03'', Size = 4, FP = 7\<rparr>]"
proof -
  have "mset (rev chain4) = mset chain4" by simp
  moreover have "SelectKeep [] chain4 1 = Some [\<lparr>Path = ''f03'', Size = 4, FP = 7\<rparr>]"
    unfolding chain4_def by code_simp
  moreover have "SelectKeep [] (rev chain4) 1 = Some [\<lparr>Path = ''f03'', Size = 4, FP = 7\<rparr>]"
    unfolding chain4_def by code_simp
  moreover have "SelectKeep lostUpdate (rev chain4) 1
       = Some [\<lparr>Path = ''f02'', Size = 3, FP = 3\<rparr>, \<lparr>Path = ''f03'', Size = 4, FP = 7\<rparr>]"
    unfolding chain4_def lostUpdate_def by code_simp
  ultimately show ?thesis by (intro conjI)
qed

section \<open>The fingerprinting stage\<close>

lemma fold_collectOne_metas:
  "metas (fold collectOne rs st) = metas st @ map meta (filter (\<lambda>r. err r = None) rs)"
  by (induction rs arbitrary: st) (auto simp: collectOne_def split: option.splits)

lemma fold_collectOne_warnings:
  "warnings (fold collectOne rs st)
     = warnings st @ map (\<lambda>r. (Path (meta r), the (err r))) (filter (\<lambda>r. err r \<noteq> None) rs)"
  by (induction rs arbitrary: st) (auto simp: collectOne_def split: option.splits)

lemma collect_metas: "metas (collect rs) = map meta (filter (\<lambda>r. err r = None) rs)"
  by (simp add: collect_def fold_collectOne_metas)

lemma collect_warnings:
  "warnings (collect rs) = map (\<lambda>r. (Path (meta r), the (err r))) (filter (\<lambda>r. err r \<noteq> None) rs)"
  by (simp add: collect_def fold_collectOne_warnings)

lemma worker_env0:
  "worker env0 8 ''a.mp3''
     = \<lparr>meta = \<lparr>Path = ''a.mp3'', Size = 4, FP = 9223372036854775808\<rparr>, err = None\<rparr>"
proof -
  have "FingerprintFromSamples [5, 0] 64 = 9223372036854775808" by code_simp
  then show ?thesis by (simp add: worker_def FingerprintFromFile_def env0_def)
qed

lemma worker_failure:
  "FingerprintFromFile E p d 64 = Inl e \<Longrightarrow> err (worker E d p) = Some e \<and> Path (meta (worker E d p)) = p"
  by (simp add: worker_def)

lemma all_failed_batch_is_fatal:
  assumes ne: "files \<noteq> []" and f: "\<forall>p\<in>set files. \<exists>e. FingerprintFromFile E p d 64 = Inl e"
  shows "mainBatch E late sched files d threshold = Inl NoFingerprints"
proof -
  let ?rs = "map (worker E d) files"
  have a: "\<forall>r\<in>set ?rs. err r \<noteq> None" using f worker_failure by fastforce
  then have "filter (\<lambda>r. err r = None) ?rs = []" by (simp add: filter_empty_conv)
  then have 1: "metas (collect ?rs) = []" by (simp add: collect_metas)
  have "\<forall>r\<in>set (butlast ?rs). err r \<noteq> None" using a in_set_butlastD by fast
  then have "filter (\<lambda>r. err r = None) (butlast ?rs) = []" by (simp only: filter_empty_conv)
  then have 2: "metas (collect (butlast ?rs)) = []" by (simp only: collect_metas list.map)
  show ?thesis using ne 1 2 by (simp add: mainBatch_def mainFrom_def)
qed

text \<open>
  C4. A batch of one file, which decodes: no file fails, and the collector appends its
  record to \<open>metas\<close>. When \<open>main\<close> reads \<open>len(metas)\<close> before the collector has done so, the
  run ends with the fatal empty-result error; when it reads afterwards, the record is kept.
\<close>

theorem unjoined_collector_loses_the_last_record:
  "worker env0 8 ''a.mp3''
     = \<lparr>meta = \<lparr>Path = ''a.mp3'', Size = 4, FP = 9223372036854775808\<rparr>, err = None\<rparr>
   \<and> metas (collect [worker env0 8 ''a.mp3''])
       = [\<lparr>Path = ''a.mp3'', Size = 4, FP = 9223372036854775808\<rparr>]
   \<and> warnings (collect [worker env0 8 ''a.mp3'']) = []
   \<and> mainBatch env0 2 [] [''a.mp3''] 8 8 = Inl NoFingerprints
   \<and> mainBatch env0 3 [] [''a.mp3''] 8 8 = Inl NoFingerprints
   \<and> mainBatch env0 0 [] [''a.mp3''] 8 8
       = Inr ([\<lparr>Path = ''a.mp3'', Size = 4, FP = 9223372036854775808\<rparr>], False)"
proof -
  have k: "SelectKeep [] [\<lparr>Path = ''a.mp3'', Size = 4, FP = 9223372036854775808\<rparr>] 8
      = Some [\<lparr>Path = ''a.mp3'', Size = 4, FP = 9223372036854775808\<rparr>]"
    by code_simp
  have c: "collect [worker env0 8 ''a.mp3'']
      = \<lparr>metas = [\<lparr>Path = ''a.mp3'', Size = 4, FP = 9223372036854775808\<rparr>],
         collectErr = None, warnings = []\<rparr>"
    by (simp add: worker_env0 collect_def collectOne_def)
  have e: "collect [] = \<lparr>metas = [], collectErr = None, warnings = []\<rparr>"
    by (simp add: collect_def)
  show ?thesis
    by (simp add: mainBatch_def mainFrom_def c[unfolded worker_env0] e k worker_env0)
qed

section \<open>Rejection of the fingerprint width\<close>

text \<open>
  C5. \<open>FingerprintFromFile\<close> rejects a width outside \<open>[1,64]\<close> before it looks for the
  decoder or reads anything. \<open>FingerprintFromSamples\<close> has no error result: a width of 0 or
  less is replaced by 64.
\<close>

theorem bitsLen_rejected_by_FingerprintFromFile:
  "(bitsLen \<le> 0 \<or> bitsLen > 64 \<longrightarrow> FingerprintFromFile E path seconds bitsLen = Inl BitsLenRange)
   \<and> (bitsLen \<le> 0 \<longrightarrow> FingerprintFromSamples samples bitsLen = FingerprintFromSamples samples 64)"
  by (simp add: FingerprintFromFile_def FingerprintFromSamples_def)

theorem bitsLen_rejected_witness:
  "FingerprintFromFile env0 ''a.mp3'' 8 0 = Inl BitsLenRange
   \<and> FingerprintFromSamples [5, 0] 0 = FingerprintFromSamples [5, 0] 64"
  using bitsLen_rejected_by_FingerprintFromFile [of 0 env0 "''a.mp3''" 8 "[5, 0]"] by simp

text \<open>
  As stated for the sample-level operation the claim fails: widths 0 and 65 both return a
  fingerprint.
\<close>

theorem FingerprintFromSamples_accepts_any_bitsLen:
  "FingerprintFromSamples [5, 0] 0 = 9223372036854775808
   \<and> FingerprintFromSamples [0, 5] 65 = 9223372036854775808"
  by code_simp

section \<open>The bits of the fingerprint\<close>

lemma bit_setBit:
  "bit (setBit av med bc i m) p \<longleftrightarrow> bit m p \<or> (av ! i > med \<and> p = bc - 1 - i \<and> p < 64)"
  by (auto simp: setBit_def bit_or_iff bit_push_bit_iff bit_1_iff bit_exp_iff)

lemma bit_fold_setBit:
  "bit (fold (setBit av med bc) js m) p \<longleftrightarrow>
     bit m p \<or> (\<exists>i\<in>set js. av ! i > med \<and> p = bc - 1 - i \<and> p < 64)"
  by (induction js arbitrary: m) (auto simp: bit_setBit)

lemma FingerprintFromSamples_bit_iff:
  assumes ne: "samples \<noteq> []" and b: "0 < b"
  shows "bit (FingerprintFromSamples samples (int b)) p \<longleftrightarrow>
           p < b \<and> p < 64
           \<and> median (blockAverages samples b) < blockAverages samples b ! (b - 1 - p)"
proof -
  let ?av = "blockAverages samples b"
  have "FingerprintFromSamples samples (int b) = fold (setBit ?av (median ?av) b) [0..<b] 0"
    using ne b by (simp add: FingerprintFromSamples_def Let_def blockAverages_def)
  then have "bit (FingerprintFromSamples samples (int b)) p \<longleftrightarrow>
      (\<exists>i\<in>set [0..<b]. ?av ! i > median ?av \<and> p = b - 1 - i \<and> p < 64)"
    by (simp add: bit_fold_setBit)
  also have "\<dots> \<longleftrightarrow> p < b \<and> p < 64 \<and> median ?av < ?av ! (b - 1 - p)"
  proof
    assume "\<exists>i\<in>set [0..<b]. ?av ! i > median ?av \<and> p = b - 1 - i \<and> p < 64"
    then obtain i where i: "i < b" "?av ! i > median ?av" "p = b - 1 - i" "p < 64" by auto
    then have "b - 1 - p = i" by simp
    with i show "p < b \<and> p < 64 \<and> median ?av < ?av ! (b - 1 - p)" by simp
  next
    assume h: "p < b \<and> p < 64 \<and> median ?av < ?av ! (b - 1 - p)"
    then have "b - 1 - p \<in> set [0..<b]" "p = b - 1 - (b - 1 - p)" by auto
    with h show "\<exists>i\<in>set [0..<b]. ?av ! i > median ?av \<and> p = b - 1 - i \<and> p < 64" by blast
  qed
  finally show ?thesis .
qed

section \<open>float64 rounding\<close>

lemma pow2_powi: "pow2 e = 2 powi e"
proof (cases "0 \<le> e")
  case True
  then show ?thesis by (simp add: pow2_def power_int_nonneg_exp)
next
  case False
  then have n: "0 \<le> - e" by simp
  have "(2::rat) powi e = inverse (2 powi (- e))" using power_int_minus[of "2::rat" "- e"] by simp
  also have "\<dots> = inverse (2 ^ nat (- e))" using n by (simp only: power_int_nonneg_exp)
  also have "\<dots> = 1 / 2 ^ nat (- e)" by (rule inverse_eq_divide)
  finally show ?thesis using False by (simp only: pow2_def if_False)
qed

lemma pow2_pos: "0 < pow2 e"
  by (simp add: pow2_powi)

lemma pow2_add: "pow2 (a + b) = pow2 a * pow2 b"
  by (simp add: pow2_powi power_int_add)

lemma pow2_nat: "pow2 (int k) = 2 ^ k"
  by (simp add: pow2_powi)

lemma pow2_mono: "a \<le> b \<Longrightarrow> pow2 a \<le> pow2 b"
  by (simp add: pow2_powi power_int_increasing)

lemma pow2_less_imp: "pow2 a < pow2 b \<Longrightarrow> a < b"
  using pow2_mono[of b a] by (cases "a < b") auto

lemma roundEven_ge_floor: "\<lfloor>y\<rfloor> \<le> roundEven y"
  by (simp add: roundEven_def Let_def)

lemma roundEven_ge: "of_int N \<le> y \<Longrightarrow> N \<le> roundEven y"
proof -
  assume "of_int N \<le> y"
  then have "N \<le> \<lfloor>y\<rfloor>" by (simp add: le_floor_iff)
  then show ?thesis using roundEven_ge_floor[of y] by linarith
qed

lemma roundEven_le: "y \<le> of_int N \<Longrightarrow> roundEven y \<le> N"
proof -
  assume le: "y \<le> of_int N"
  then have fl: "\<lfloor>y\<rfloor> \<le> N" by (metis floor_mono floor_of_int)
  show "roundEven y \<le> N"
  proof (cases "y = of_int \<lfloor>y\<rfloor>")
    case True
    then have "y - of_int \<lfloor>y\<rfloor> = 0" by simp
    then have "roundEven y = \<lfloor>y\<rfloor>" by (simp add: roundEven_def Let_def)
    with fl show ?thesis by simp
  next
    case False
    then have "of_int \<lfloor>y\<rfloor> < y" using of_int_floor_le[of y] by linarith
    then have "(of_int \<lfloor>y\<rfloor> :: rat) < of_int N" using le by linarith
    then have "\<lfloor>y\<rfloor> < N" by (simp only: of_int_less_iff)
    moreover have "roundEven y \<le> \<lfloor>y\<rfloor> + 1" by (simp add: roundEven_def Let_def)
    ultimately show ?thesis by linarith
  qed
qed

lemma expo_bounds:
  assumes x: "0 < x"
  shows "pow2 (expo x) \<le> x \<and> x < pow2 (expo x + 1)"
proof -
  obtain a b where q: "quotient_of x = (a, b)" by (cases "quotient_of x")
  have b: "0 < b" using q by (rule quotient_of_denom_pos)
  have xe: "x = of_int a / of_int b" using q by (rule quotient_of_div)
  have a: "0 < a"
  proof (rule ccontr)
    assume "\<not> 0 < a"
    then have "(of_int a :: rat) \<le> 0" by simp
    then have "x \<le> 0" using xe b by (simp add: divide_nonpos_pos)
    with x show False by simp
  qed
  define la where "la = bitlen a"
  define lb where "lb = bitlen b"
  have la1: "1 \<le> la" using a bitlen_eq_zero_iff[of a] bitlen_nonneg[of a] unfolding la_def by linarith
  have lb1: "1 \<le> lb" using b bitlen_eq_zero_iff[of b] bitlen_nonneg[of b] unfolding lb_def by linarith
  from bitlen_bounds[OF a] have ba: "2 ^ nat (la - 1) \<le> a" "a < 2 ^ nat la" unfolding la_def by simp_all
  from bitlen_bounds[OF b] have bb: "2 ^ nat (lb - 1) \<le> b" "b < 2 ^ nat lb" unfolding lb_def by simp_all
  have ra1: "pow2 (la - 1) \<le> of_int a"
  proof -
    have "(of_int (2 ^ nat (la - 1)) :: rat) \<le> of_int a" using ba(1) by (simp only: of_int_le_iff)
    then show ?thesis using la1 by (simp add: pow2_powi power_int_nonneg_exp)
  qed
  have ra2: "of_int a < pow2 la"
  proof -
    have "(of_int a :: rat) < of_int (2 ^ nat la)" using ba(2) by (simp only: of_int_less_iff)
    then show ?thesis using la1 by (simp add: pow2_powi power_int_nonneg_exp)
  qed
  have rb1: "pow2 (lb - 1) \<le> of_int b"
  proof -
    have "(of_int (2 ^ nat (lb - 1)) :: rat) \<le> of_int b" using bb(1) by (simp only: of_int_le_iff)
    then show ?thesis using lb1 by (simp add: pow2_powi power_int_nonneg_exp)
  qed
  have rb2: "of_int b < pow2 lb"
  proof -
    have "(of_int b :: rat) < of_int (2 ^ nat lb)" using bb(2) by (simp only: of_int_less_iff)
    then show ?thesis using lb1 by (simp add: pow2_powi power_int_nonneg_exp)
  qed
  define d where "d = la - lb"
  have up: "x < pow2 (d + 1)"
  proof -
    have "of_int a / of_int b < pow2 la / pow2 (lb - 1)"
      using ra2 rb1 a pow2_pos[of "lb - 1"] by (intro frac_less) simp_all
    also have "\<dots> = pow2 (d + 1)"
    proof -
      have "pow2 la = pow2 (d + 1) * pow2 (lb - 1)"
        using pow2_add[of "d + 1" "lb - 1"] unfolding d_def by simp
      then show ?thesis using pow2_pos[of "lb - 1"] by simp
    qed
    finally show ?thesis using xe by simp
  qed
  have lo: "pow2 (d - 1) < x"
  proof -
    have "pow2 (la - 1) / pow2 lb < of_int a / of_int b"
      using ra1 rb2 b pow2_pos[of "la - 1"] by (intro frac_less2) simp_all
    moreover have "pow2 (la - 1) / pow2 lb = pow2 (d - 1)"
    proof -
      have "pow2 (la - 1) = pow2 (d - 1) * pow2 lb"
        using pow2_add[of "d - 1" lb] unfolding d_def by simp
      then show ?thesis using pow2_pos[of lb] by simp
    qed
    ultimately show ?thesis using xe by simp
  qed
  have ex: "expo x = (if pow2 d \<le> x then d else d - 1)"
    unfolding expo_def Let_def d_def la_def lb_def using q by simp
  show ?thesis
  proof (cases "pow2 d \<le> x")
    case True
    then show ?thesis using ex up by simp
  next
    case False
    then show ?thesis using ex lo by simp
  qed
qed

lemma fl64_pos:
  assumes x: "0 < x"
  shows "fl64 x = of_int (roundEven (x / pow2 (expo x - 52))) * pow2 (expo x - 52)"
  using x by (simp add: fl64_def Let_def)

lemma scaled_bounds:
  assumes x: "0 < x"
  shows "2 ^ 52 \<le> x / pow2 (expo x - 52)" and "x / pow2 (expo x - 52) < 2 ^ 53"
proof -
  let ?u = "pow2 (expo x - 52)"
  have u: "0 < ?u" by (rule pow2_pos)
  have e1: "pow2 (expo x) = 2 ^ 52 * ?u"
    using pow2_add[of 52 "expo x - 52"] pow2_nat[of 52] by simp
  have e2: "pow2 (expo x + 1) = 2 ^ 53 * ?u"
    using pow2_add[of 53 "expo x - 52"] pow2_nat[of 53] by (simp add: algebra_simps)
  from expo_bounds[OF x] have "2 ^ 52 * ?u \<le> x" "x < 2 ^ 53 * ?u" using e1 e2 by simp_all
  then show "2 ^ 52 \<le> x / ?u" and "x / ?u < 2 ^ 53"
    using u by (simp_all add: pos_le_divide_eq pos_divide_less_eq)
qed

lemma representable_multiple:
  assumes r: "representable f" and f: "0 < f" and ge: "pow2 e \<le> f"
  shows "\<exists>N. f = of_int N * pow2 (e - 52)"
proof -
  from r obtain m k where mk: "\<bar>m\<bar> < 2 ^ 53" "f = of_int m * pow2 k"
    unfolding representable_def by blast
  have mpos: "0 < m"
  proof (rule ccontr)
    assume "\<not> 0 < m"
    then have "(of_int m :: rat) \<le> 0" by simp
    then have "f \<le> 0" using mk(2) pow2_pos[of k] by (simp add: mult_nonpos_nonneg)
    with f show False by simp
  qed
  have "m < 2 ^ 53" using mk(1) by simp
  then have "(of_int m :: rat) < of_int (2 ^ 53)" by (simp only: of_int_less_iff)
  then have "(of_int m :: rat) < pow2 53" using pow2_nat[of 53] by simp
  then have "f < pow2 53 * pow2 k" using mk(2) pow2_pos[of k] by simp
  then have "pow2 e < pow2 (53 + k)" using ge pow2_add[of 53 k] by simp
  then have "e < 53 + k" by (rule pow2_less_imp)
  then have j: "0 \<le> k - e + 52" by simp
  have "pow2 k = pow2 (k - e + 52) * pow2 (e - 52)"
    using pow2_add[of "k - e + 52" "e - 52"] by simp
  also have "pow2 (k - e + 52) = 2 ^ nat (k - e + 52)"
    using j pow2_nat[of "nat (k - e + 52)"] by simp
  finally have "f = of_int (m * 2 ^ nat (k - e + 52)) * pow2 (e - 52)"
    using mk(2) by simp
  then show ?thesis by blast
qed

lemma fl64_ge_representable:
  assumes r: "representable f" and f: "0 < f" and le: "f \<le> z"
  shows "f \<le> fl64 z"
proof -
  have z: "0 < z" using f le by simp
  let ?e = "expo z"
  let ?u = "pow2 (?e - 52)"
  have u: "0 < ?u" by (rule pow2_pos)
  have fz: "fl64 z = of_int (roundEven (z / ?u)) * ?u" by (rule fl64_pos[OF z])
  show ?thesis
  proof (cases "pow2 ?e \<le> f")
    case True
    from representable_multiple[OF r f True] obtain N where N: "f = of_int N * ?u" by blast
    then have "of_int N = f / ?u" using u by simp
    also have "\<dots> \<le> z / ?u" using le u by (simp add: divide_right_mono)
    finally have "N \<le> roundEven (z / ?u)" by (rule roundEven_ge)
    then have "(of_int N :: rat) \<le> of_int (roundEven (z / ?u))" by (simp only: of_int_le_iff)
    then have "of_int N * ?u \<le> of_int (roundEven (z / ?u)) * ?u"
      using u by (simp add: mult_right_mono)
    then show ?thesis using N fz by simp
  next
    case False
    have "(of_int (2 ^ 52) :: rat) \<le> z / ?u" using scaled_bounds(1)[OF z] by simp
    then have "2 ^ 52 \<le> roundEven (z / ?u)" by (rule roundEven_ge)
    then have "(of_int (2 ^ 52) :: rat) \<le> of_int (roundEven (z / ?u))" by (simp only: of_int_le_iff)
    then have "2 ^ 52 * ?u \<le> of_int (roundEven (z / ?u)) * ?u"
      using u by (simp add: mult_right_mono)
    moreover have "pow2 ?e = 2 ^ 52 * ?u"
      using pow2_add[of 52 "?e - 52"] pow2_nat[of 52] by simp
    ultimately show ?thesis using False fz by simp
  qed
qed

lemma fl64_representable:
  assumes x: "0 \<le> x"
  shows "representable (fl64 x) \<and> 0 \<le> fl64 x"
proof (cases "x = 0")
  case True
  have "representable 0" unfolding representable_def by (intro exI[of _ 0]) simp
  then show ?thesis using True by (simp add: fl64_def)
next
  case False
  then have xp: "0 < x" using x by simp
  let ?e = "expo x"
  let ?u = "pow2 (?e - 52)"
  let ?M = "roundEven (x / ?u)"
  have u: "0 < ?u" by (rule pow2_pos)
  have fx: "fl64 x = of_int ?M * ?u" by (rule fl64_pos[OF xp])
  have "(of_int (2 ^ 52) :: rat) \<le> x / ?u" using scaled_bounds(1)[OF xp] by simp
  then have lo: "2 ^ 52 \<le> ?M" by (rule roundEven_ge)
  have "x / ?u \<le> (of_int (2 ^ 53) :: rat)" using scaled_bounds(2)[OF xp] by simp
  then have hi: "?M \<le> 2 ^ 53" by (rule roundEven_le)
  have nn: "0 \<le> fl64 x" using fx lo u by simp
  have "representable (fl64 x)"
  proof (cases "?M = 2 ^ 53")
    case True
    have "fl64 x = of_int 1 * pow2 (?e + 1)"
      using fx True pow2_add[of 53 "?e - 52"] pow2_nat[of 53] by (simp add: algebra_simps)
    then show ?thesis unfolding representable_def by (intro exI[of _ 1] exI[of _ "?e + 1"]) simp
  next
    case False
    then have "\<bar>?M\<bar> < 2 ^ 53" using lo hi by simp
    then show ?thesis unfolding representable_def using fx by blast
  qed
  with nn show ?thesis by simp
qed

lemma representable_double: "representable f \<Longrightarrow> representable (2 * f)"
proof -
  assume "representable f"
  then obtain m k where mk: "\<bar>m\<bar> < 2 ^ 53" "f = of_int m * pow2 k"
    unfolding representable_def by blast
  have "2 * f = of_int m * pow2 (k + 1)" using mk(2) pow2_add[of k 1] pow2_nat[of 1] by simp
  with mk(1) show ?thesis unfolding representable_def by blast
qed

lemma fl64_midpoint_ge:
  assumes r: "representable a" and a: "0 \<le> a" and le: "a \<le> b"
  shows "a \<le> fl64 (fl64 (a + b) / 2)"
proof (cases "a = 0")
  case True
  have "0 \<le> fl64 (a + b)" using fl64_representable[of "a + b"] a le by simp
  then have "0 \<le> fl64 (fl64 (a + b) / 2)" using fl64_representable[of "fl64 (a + b) / 2"] by simp
  with True show ?thesis by simp
next
  case False
  then have ap: "0 < a" using a by simp
  have "2 * a \<le> fl64 (a + b)"
    by (rule fl64_ge_representable[OF representable_double[OF r]]) (use ap le in simp_all)
  then have "a \<le> fl64 (a + b) / 2" by simp
  then show ?thesis by (rule fl64_ge_representable[OF r ap])
qed

section \<open>At most half of the bits are set\<close>

lemma fold_accumulate_nonneg: "0 \<le> s \<Longrightarrow> 0 \<le> fold accumulate xs s"
proof (induction xs arbitrary: s)
  case Nil
  then show ?case by simp
next
  case (Cons v xs)
  have "0 \<le> accumulate v s"
  proof (cases "sint v < 0")
    case True
    then have "(of_int (sint v) :: rat) < 0" by (simp only: of_int_less_0_iff)
    then have "0 \<le> s - of_int (sint v)" using Cons.prems by linarith
    then have "0 \<le> fl64 (s - of_int (sint v))" using fl64_representable by blast
    then show ?thesis using True by (simp only: accumulate_def if_True)
  next
    case False
    then have "(0::rat) \<le> of_int (sint v)" by (simp only: of_int_0_le_iff not_less)
    then have "0 \<le> s + of_int (sint v)" using Cons.prems by linarith
    then have "0 \<le> fl64 (s + of_int (sint v))" using fl64_representable by blast
    then show ?thesis using False by (simp only: accumulate_def if_False)
  qed
  then show ?case using Cons.IH by simp
qed

lemma blockAverage_float: "representable (blockAverage samples sz i) \<and> 0 \<le> blockAverage samples sz i"
proof -
  have z: "representable 0 \<and> (0::rat) \<le> 0" using fl64_representable[of 0] by (simp add: fl64_def)
  have q: "\<And>xs (c::nat). representable (fl64 (fold accumulate xs 0 / of_nat c))
              \<and> 0 \<le> fl64 (fold accumulate xs 0 / of_nat c)"
  proof -
    fix xs and c :: nat
    have "0 \<le> fold accumulate xs 0" by (rule fold_accumulate_nonneg) simp
    then have "0 \<le> fold accumulate xs 0 / of_nat c" by simp
    then show "representable (fl64 (fold accumulate xs 0 / of_nat c))
              \<and> 0 \<le> fl64 (fold accumulate xs 0 / of_nat c)" by (rule fl64_representable)
  qed
  have "blockAverage samples sz i = 0
        \<or> (\<exists>xs (c::nat). blockAverage samples sz i = fl64 (fold accumulate xs 0 / of_nat c))"
    unfolding blockAverage_def Let_def by (auto simp only: split: if_splits)
  then show ?thesis using z q by (elim disjE exE) (simp_all only:)
qed

lemma blockAverages_float:
  "length (blockAverages samples b) = b"
  "x \<in> set (blockAverages samples b) \<Longrightarrow> representable x \<and> 0 \<le> x"
  unfolding blockAverages_def using blockAverage_float by auto

lemma median_lower:
  assumes ne: "av \<noteq> []" and fl: "\<And>x. x \<in> set av \<Longrightarrow> representable x \<and> 0 \<le> x"
  shows "sort av ! ((length av - 1) div 2) \<le> median av"
proof -
  let ?s = "sort av"
  let ?n = "length av"
  have n: "0 < ?n" using ne by simp
  have len: "length ?s = ?n" by simp
  show ?thesis
  proof (cases "?n mod 2 = 0")
    case True
    then have k: "(?n - 1) div 2 = ?n div 2 - 1" "?n div 2 < ?n" "?n div 2 - 1 \<le> ?n div 2"
      using n by presburger+
    have srt: "sorted ?s" by simp
    have le: "?s ! (?n div 2 - 1) \<le> ?s ! (?n div 2)"
      using sorted_nth_mono[OF srt k(3)] k(2) by simp
    have "?s ! (?n div 2 - 1) \<in> set ?s" using k(2) by (intro nth_mem) simp
    then have mem: "?s ! (?n div 2 - 1) \<in> set av" by simp
    have "?s ! (?n div 2 - 1) \<le> fl64 (fl64 (?s ! (?n div 2 - 1) + ?s ! (?n div 2)) / 2)"
      using fl[OF mem] le by (intro fl64_midpoint_ge) simp_all
    then show ?thesis using True k(1) by (simp add: median_def Let_def)
  next
    case False
    then have "(?n - 1) div 2 = ?n div 2" by presburger
    then show ?thesis using False by (simp add: median_def Let_def)
  qed
qed

lemma count_above_median:
  assumes ne: "av \<noteq> []" and fl: "\<And>x. x \<in> set av \<Longrightarrow> representable x \<and> 0 \<le> x"
  shows "length (filter (\<lambda>x. median av < x) av) \<le> length av div 2"
proof -
  let ?s = "sort av"
  let ?n = "length av"
  let ?k = "(?n - 1) div 2"
  let ?P = "\<lambda>x. median av < x"
  have n: "0 < ?n" using ne by simp
  have kn: "?k < ?n" using n by presburger
  have lo: "?s ! ?k \<le> median av" by (rule median_lower[OF ne fl])
  have "mset (filter ?P av) = mset (filter ?P ?s)" by simp
  then have "size (mset (filter ?P av)) = size (mset (filter ?P ?s))" by (rule arg_cong)
  then have eq: "length (filter ?P av) = length (filter ?P ?s)" by (simp only: size_mset)
  have "\<forall>x\<in>set (take (Suc ?k) ?s). \<not> ?P x"
  proof
    fix x assume "x \<in> set (take (Suc ?k) ?s)"
    then obtain j where j: "j < length (take (Suc ?k) ?s)" "x = take (Suc ?k) ?s ! j"
      by (auto simp: in_set_conv_nth)
    then have jk: "j \<le> ?k" by simp
    then have "x = ?s ! j" using j by simp
    moreover have "?s ! j \<le> ?s ! ?k" using sorted_nth_mono[of ?s j ?k] jk kn by simp
    ultimately show "\<not> ?P x" using lo by simp
  qed
  then have e: "filter ?P (take (Suc ?k) ?s) = []" by (simp add: filter_empty_conv)
  have "filter ?P ?s = filter ?P (take (Suc ?k) ?s @ drop (Suc ?k) ?s)" by simp
  also have "\<dots> = filter ?P (drop (Suc ?k) ?s)" using e by (simp only: filter_append) simp
  finally have "length (filter ?P ?s) \<le> length (drop (Suc ?k) ?s)"
    by (simp only: length_filter_le)
  also have "\<dots> = ?n - Suc ?k" by simp
  also have "\<dots> \<le> ?n div 2" using n by presburger
  finally show ?thesis using eq by simp
qed

lemma OnesCount64_card: "OnesCount64 w = int (card {p. p < 64 \<and> bit w p})"
proof -
  have "length (filter (bit w) [0..<64]) = card ({p. bit w p} \<inter> set [0..<64])"
    by (rule distinct_length_filter) simp
  moreover have "{p. bit w p} \<inter> set [0..<64] = {p. p < 64 \<and> bit w p}" by auto
  ultimately show ?thesis by (simp add: OnesCount64_def)
qed

lemma card_mirror: "card {p. p < b \<and> Q (b - 1 - p)} = card {i. i < (b::nat) \<and> Q i}"
proof (rule bij_betw_same_card[of "\<lambda>p. b - 1 - p"])
  show "bij_betw (\<lambda>p. b - 1 - p) {p. p < b \<and> Q (b - 1 - p)} {i. i < b \<and> Q i}"
    unfolding bij_betw_def
  proof
    show "inj_on (\<lambda>p. b - 1 - p) {p. p < b \<and> Q (b - 1 - p)}"
      by (rule inj_onI) auto
    show "(\<lambda>p. b - 1 - p) ` {p. p < b \<and> Q (b - 1 - p)} = {i. i < b \<and> Q i}"
    proof (intro set_eqI iffI)
      fix i assume "i \<in> (\<lambda>p. b - 1 - p) ` {p. p < b \<and> Q (b - 1 - p)}"
      then show "i \<in> {i. i < b \<and> Q i}" by auto
    next
      fix i assume "i \<in> {i. i < b \<and> Q i}"
      then have "b - 1 - i \<in> {p. p < b \<and> Q (b - 1 - p)}" "i = b - 1 - (b - 1 - i)" by auto
      then show "i \<in> (\<lambda>p. b - 1 - p) ` {p. p < b \<and> Q (b - 1 - p)}" by (rule rev_image_eqI)
    qed
  qed
qed

lemma count_nth: "card {i. i < length av \<and> Q (av ! i)} = length (filter Q av)"
proof -
  have "length (filter Q av) = length (filter Q (map ((!) av) [0..<length av]))"
    by (simp only: map_nth)
  also have "\<dots> = length (filter (Q \<circ> (!) av) [0..<length av])"
    by (simp only: filter_map length_map)
  also have "\<dots> = card ({i. (Q \<circ> (!) av) i} \<inter> set [0..<length av])"
    by (rule distinct_length_filter) simp
  also have "{i. (Q \<circ> (!) av) i} \<inter> set [0..<length av] = {i. i < length av \<and> Q (av ! i)}"
    by auto
  finally show ?thesis by simp
qed

lemma FingerprintFromSamples_weight:
  assumes ne: "samples \<noteq> []" and b: "0 < b" "b \<le> 64"
  shows "OnesCount64 (FingerprintFromSamples samples (int b)) \<le> int (b div 2)"
proof -
  let ?av = "blockAverages samples b"
  let ?w = "FingerprintFromSamples samples (int b)"
  have len: "length ?av = b" by (rule blockAverages_float(1))
  then have avne: "?av \<noteq> []" using b(1) by auto
  have "\<And>p. (p < 64 \<and> bit ?w p) \<longleftrightarrow> (p < b \<and> median ?av < ?av ! (b - 1 - p))"
    unfolding FingerprintFromSamples_bit_iff[OF ne b(1)] using b(2) by auto
  then have "{p. p < 64 \<and> bit ?w p} = {p. p < b \<and> median ?av < ?av ! (b - 1 - p)}"
    by (rule Collect_cong)
  then have "card {p. p < 64 \<and> bit ?w p} = card {p. p < b \<and> median ?av < ?av ! (b - 1 - p)}"
    by simp
  also have "\<dots> = card {i. i < b \<and> median ?av < ?av ! i}" by (rule card_mirror)
  also have "\<dots> = length (filter (\<lambda>x. median ?av < x) ?av)"
    using count_nth[of ?av "\<lambda>x. median ?av < x"] len by simp
  also have "\<dots> \<le> length ?av div 2"
    by (rule count_above_median[OF avne]) (rule blockAverages_float(2))
  finally show ?thesis using len by (simp add: OnesCount64_card)
qed

lemma FingerprintFromSamples_below:
  assumes ne: "samples \<noteq> []" and b: "0 < b"
  shows "unat (FingerprintFromSamples samples (int b)) < 2 ^ b"
proof -
  let ?w = "FingerprintFromSamples samples (int b)"
  have "\<And>p. bit (take_bit b ?w) p = bit ?w p"
    unfolding bit_take_bit_iff FingerprintFromSamples_bit_iff[OF ne b] by auto
  then have "take_bit b ?w = ?w" by (rule bit_eqI)
  then have "unat ?w = take_bit b (unat ?w)" by (metis unsigned_take_bit_eq)
  then show ?thesis by (metis take_bit_nat_less_exp)
qed

lemma OnesCount64_mask: "n \<le> 64 \<Longrightarrow> OnesCount64 (mask n) = int n"
proof -
  assume n: "n \<le> 64"
  have "{p. p < 64 \<and> bit (mask n :: 64 word) p} = {..<n}"
    using n by (auto simp: bit_mask_iff)
  then show ?thesis by (simp add: OnesCount64_card)
qed

text \<open>
  C10. For every sample sequence and every width \<open>b\<close> from 1 to 64 the fingerprint has no bit
  at position \<open>b\<close> or above, and at most \<open>b div 2\<close> of its bits are set: fewer than half of
  the block means can exceed their median. In particular the all-ones fingerprint is never
  returned.
\<close>

theorem fingerprint_sets_at_most_half_of_its_bits:
  assumes "1 \<le> b" and "b \<le> 64"
  shows "unat (FingerprintFromSamples samples b) < 2 ^ nat b
         \<and> OnesCount64 (FingerprintFromSamples samples b) \<le> b div 2
         \<and> FingerprintFromSamples samples b \<noteq> mask (nat b)"
proof -
  have nb: "0 < nat b" "nat b \<le> 64" "int (nat b) = b" using assms by simp_all
  have w: "OnesCount64 (FingerprintFromSamples samples b) \<le> b div 2"
  proof (cases "samples = []")
    case True
    have "OnesCount64 0 = 0" by (simp add: OnesCount64_def)
    then show ?thesis using True assms by (simp add: FingerprintFromSamples_def)
  next
    case False
    have "int (nat b div 2) = b div 2" using assms by (simp add: zdiv_int)
    then show ?thesis using FingerprintFromSamples_weight[OF False nb(1,2)] nb(3) by (simp only:)
  qed
  have u: "unat (FingerprintFromSamples samples b) < 2 ^ nat b"
  proof (cases "samples = []")
    case True
    then show ?thesis by (simp add: FingerprintFromSamples_def)
  next
    case False
    show ?thesis using FingerprintFromSamples_below[OF False nb(1)] nb(3) by (simp only:)
  qed
  have "FingerprintFromSamples samples b \<noteq> mask (nat b)"
  proof
    assume "FingerprintFromSamples samples b = mask (nat b)"
    then have "b \<le> b div 2" using w OnesCount64_mask[OF nb(2)] nb(3) by simp
    then show False using assms by simp
  qed
  with u w show ?thesis by simp
qed

theorem fingerprint_sets_at_most_half_of_its_bits_witness:
  "(1::int) \<le> 4 \<and> (4::int) \<le> 64
   \<and> FingerprintFromSamples [1, 2, 3, 4, 5, 6, 7, 8] 4 = 3
   \<and> unat (3 :: 64 word) < 2 ^ nat 4 \<and> OnesCount64 3 \<le> 4 div 2"
proof -
  have 1: "(1::int) \<le> 4" and 2: "(4::int) \<le> 64" by simp_all
  have v: "FingerprintFromSamples [1, 2, 3, 4, 5, 6, 7, 8] 4 = 3" by code_simp
  from fingerprint_sets_at_most_half_of_its_bits[OF 1 2, of "[1, 2, 3, 4, 5, 6, 7, 8]"] v 1 2
  show ?thesis by simp
qed

section \<open>Volume scaling\<close>

lemma roundEven_of_int: "roundEven (of_int N) = N"
  by (simp add: roundEven_def)

lemma fl64_representable_id:
  assumes r: "representable f" and f: "0 < f"
  shows "fl64 f = f"
proof -
  define U where "U = pow2 (expo f - 52)"
  have u: "0 < U" unfolding U_def by (rule pow2_pos)
  have "pow2 (expo f) \<le> f" using expo_bounds[OF f] by simp
  from representable_multiple[OF r f this] obtain N where N: "f = of_int N * U"
    unfolding U_def by blast
  then have "f / U = of_int N" using u by simp
  then have "roundEven (f / U) = N" by (simp only: roundEven_of_int)
  moreover have "fl64 f = of_int (roundEven (f / U)) * U" unfolding U_def by (rule fl64_pos[OF f])
  ultimately show ?thesis using N by simp
qed

lemma fl64_zero: "fl64 0 = 0"
  by (simp add: fl64_def)

lemma fl64_int:
  assumes "0 \<le> N" and "N \<le> 2 ^ 53"
  shows "fl64 (of_int N) = of_int N"
proof (cases "N = 0")
  case True
  then show ?thesis by (simp add: fl64_def)
next
  case False
  then have p: "(0::rat) < of_int N" using assms(1) by simp
  have "representable (of_int N)"
  proof (cases "N = 2 ^ 53")
    case True
    have "(of_int N :: rat) = of_int (2 ^ 52) * pow2 1" using True pow2_nat[of 1] by simp
    then show ?thesis unfolding representable_def by (intro exI[of _ "2 ^ 52"] exI[of _ 1]) simp
  next
    case False
    then have "\<bar>N\<bar> < 2 ^ 53" using assms by simp
    moreover have "(of_int N :: rat) = of_int N * pow2 0" using pow2_nat[of 0] by simp
    ultimately show ?thesis unfolding representable_def by blast
  qed
  then show ?thesis using p by (rule fl64_representable_id)
qed

lemma accumulate_int:
  assumes "0 \<le> sint v" and "0 \<le> S" and "S + sint v \<le> 2 ^ 53"
  shows "accumulate v (of_int S) = of_int (S + sint v)"
proof -
  have "accumulate v (of_int S) = fl64 (of_int S + of_int (sint v))"
    using assms(1) by (simp only: accumulate_def not_less[symmetric] if_False)
  also have "\<dots> = fl64 (of_int (S + sint v))" by (simp only: of_int_add)
  also have "\<dots> = of_int (S + sint v)" using assms by (intro fl64_int) simp_all
  finally show ?thesis .
qed

lemma fold_accumulate_replicate:
  assumes "0 \<le> sint v" and "0 \<le> S" and "S + int n * sint v \<le> 2 ^ 53"
  shows "fold accumulate (replicate n v) (of_int S) = of_int (S + int n * sint v)"
  using assms
proof (induction n arbitrary: S)
  case 0
  then show ?case by simp
next
  case (Suc n)
  have le: "S + sint v \<le> 2 ^ 53"
  proof -
    have "0 \<le> int n * sint v" using Suc.prems(1) by simp
    then show ?thesis using Suc.prems(3) by (simp add: algebra_simps)
  qed
  have a: "accumulate v (of_int S) = of_int (S + sint v)"
    by (rule accumulate_int[OF Suc.prems(1,2) le])
  have "fold accumulate (replicate n v) (of_int (S + sint v)) = of_int (S + sint v + int n * sint v)"
    using Suc.prems by (intro Suc.IH) (simp_all add: algebra_simps)
  then show ?case using a by (simp add: algebra_simps)
qed

lemma FingerprintFromSamples_nonempty:
  assumes "samples \<noteq> []" and "0 < b"
  shows "FingerprintFromSamples samples (int b)
         = fold (setBit (blockAverages samples b) (median (blockAverages samples b)) b) [0..<b] 0"
  using assms by (simp add: FingerprintFromSamples_def Let_def blockAverages_def)

lemma two_tone_average0:
  assumes xs: "samples = replicate a x @ [y] @ rest"
    and x: "0 \<le> sint x" and y: "0 \<le> sint y" and s: "int a * sint x + sint y \<le> 2 ^ 53"
  shows "blockAverage samples (Suc a) 0 = fl64 (of_int (int a * sint x + sint y) / of_nat (Suc a))"
proof -
  have l: "Suc a \<le> length samples" using xs by simp
  have t: "take (Suc a) samples = replicate a x @ [y]" using xs by simp
  have "fold accumulate (replicate a x) (of_int 0) = of_int (0 + int a * sint x)"
    using x s y by (intro fold_accumulate_replicate) simp_all
  then have f1: "fold accumulate (replicate a x) 0 = of_int (int a * sint x)" by simp
  have "accumulate y (of_int (int a * sint x)) = of_int (int a * sint x + sint y)"
    using x y s by (intro accumulate_int) simp_all
  then have f: "fold accumulate (replicate a x @ [y]) 0 = of_int (int a * sint x + sint y)"
    using f1 by simp
  have "blockAverage samples (Suc a) 0
        = fl64 (fold accumulate (take (Suc a) samples) 0 / of_nat (Suc a))"
    using l unfolding blockAverage_def Let_def by (auto simp del: of_nat_Suc take_Suc)
  then show ?thesis using t f by (simp only:)
qed

lemma two_tone_average1:
  assumes xs: "samples = replicate a x @ [y] @ replicate b x @ [y]" and ba: "b < a"
    and x: "0 \<le> sint x" and y: "0 \<le> sint y" and s: "int b * sint x + sint y \<le> 2 ^ 53"
  shows "blockAverage samples (Suc a) 1 = fl64 (of_int (int b * sint x + sint y) / of_nat (Suc b))"
proof -
  have len: "length samples = Suc a + Suc b" using xs by simp
  have d: "drop (Suc a) samples = replicate b x @ [y]" using xs by simp
  have "fold accumulate (replicate b x) (of_int 0) = of_int (0 + int b * sint x)"
    using x s y by (intro fold_accumulate_replicate) simp_all
  then have f1: "fold accumulate (replicate b x) 0 = of_int (int b * sint x)" by simp
  have "accumulate y (of_int (int b * sint x)) = of_int (int b * sint x + sint y)"
    using x y s by (intro accumulate_int) simp_all
  then have f: "fold accumulate (replicate b x @ [y]) 0 = of_int (int b * sint x + sint y)"
    using f1 by simp
  have "blockAverage samples (Suc a) 1
        = fl64 (fold accumulate (drop (Suc a) samples) 0 / of_nat (Suc b))"
    using len ba unfolding blockAverage_def Let_def by (auto simp del: of_nat_Suc drop_Suc)
  then show ?thesis using d f by (simp only:)
qed

lemma two_tone_fingerprint:
  assumes xs: "samples = replicate (Suc b) x @ [y] @ replicate b x @ [y]"
    and x: "0 \<le> sint x" and y: "0 \<le> sint y" and s: "int (Suc b) * sint x + sint y \<le> 2 ^ 53"
  shows "FingerprintFromSamples samples 2
         = (let av = [fl64 (of_int (int (Suc b) * sint x + sint y) / of_nat (Suc (Suc b))),
                      fl64 (of_int (int b * sint x + sint y) / of_nat (Suc b))]
            in fold (setBit av (median av) 2) [0, 1] 0)"
proof -
  have ne: "samples \<noteq> []" using xs by simp
  have len: "length samples = 2 * b + 3" using xs by simp
  have sz: "(length samples + 2 - 1) div 2 = Suc (Suc b)" using len by simp
  have s': "int b * sint x + sint y \<le> 2 ^ 53"
  proof -
    have "int b * sint x \<le> int (Suc b) * sint x" using x by (simp add: mult_right_mono)
    then show ?thesis using s by linarith
  qed
  have xs0: "samples = replicate (Suc b) x @ [y] @ (replicate b x @ [y])" using xs by simp
  have a0: "blockAverage samples (Suc (Suc b)) 0
        = fl64 (of_int (int (Suc b) * sint x + sint y) / of_nat (Suc (Suc b)))"
    by (rule two_tone_average0[OF xs0 x y s])
  have a1: "blockAverage samples (Suc (Suc b)) 1
        = fl64 (of_int (int b * sint x + sint y) / of_nat (Suc b))"
    by (rule two_tone_average1[OF xs _ x y s']) simp
  have up: "[0..<2] = [0, Suc 0]" by (simp add: upt_rec)
  have av: "blockAverages samples 2
        = [fl64 (of_int (int (Suc b) * sint x + sint y) / of_nat (Suc (Suc b))),
           fl64 (of_int (int b * sint x + sint y) / of_nat (Suc b))]"
    unfolding blockAverages_def sz up using a0 a1 by simp
  have "FingerprintFromSamples samples (int 2)
         = fold (setBit (blockAverages samples 2) (median (blockAverages samples 2)) 2) [0..<2] 0"
    by (rule FingerprintFromSamples_nonempty[OF ne]) simp
  then show ?thesis unfolding av up Let_def by simp
qed

lemma quietTone_fingerprint: "FingerprintFromSamples quietTone 2 = 2"
proof -
  have xs: "quietTone = replicate (Suc 1048574) 3277 @ [3276] @ replicate 1048574 3277 @ [3276]"
    by (simp add: quietTone_def)
  have x: "sint (3277 :: int16) = 3277" and y: "sint (3276 :: int16) = 3276" by simp_all
  have "FingerprintFromSamples quietTone 2
         = (let av = [fl64 (of_int (int (Suc 1048574) * sint (3277 :: int16) + sint (3276 :: int16))
                            / of_nat (Suc (Suc 1048574))),
                      fl64 (of_int (int 1048574 * sint (3277 :: int16) + sint (3276 :: int16))
                            / of_nat (Suc 1048574))]
            in fold (setBit av (median av) 2) [0, 1] 0)"
    by (rule two_tone_fingerprint[OF xs]) (simp_all add: x y)
  also have "\<dots> = (let av = [fl64 (3436183551 / 1048576), fl64 (3436180274 / 1048575)]
                    in fold (setBit av (median av) 2) [0, 1] 0)"
    by (simp add: x y)
  also have "\<dots> = 2" by code_simp
  finally show ?thesis .
qed

lemma loudTone_fingerprint: "FingerprintFromSamples loudTone 2 = 0"
proof -
  have xs: "loudTone = replicate (Suc 1048574) 16385 @ [16380] @ replicate 1048574 16385 @ [16380]"
    by (simp add: loudTone_def)
  have x: "sint (16385 :: int16) = 16385" and y: "sint (16380 :: int16) = 16380" by simp_all
  have "FingerprintFromSamples loudTone 2
         = (let av = [fl64 (of_int (int (Suc 1048574) * sint (16385 :: int16) + sint (16380 :: int16))
                            / of_nat (Suc (Suc 1048574))),
                      fl64 (of_int (int 1048574 * sint (16385 :: int16) + sint (16380 :: int16))
                            / of_nat (Suc 1048574))]
            in fold (setBit av (median av) 2) [0, 1] 0)"
    by (rule two_tone_fingerprint[OF xs]) (simp_all add: x y)
  also have "\<dots> = (let av = [fl64 (17180917755 / 1048576), fl64 (17180901370 / 1048575)]
                    in fold (setBit av (median av) 2) [0, 1] 0)"
    by (simp add: x y)
  also have "\<dots> = 0" by code_simp
  finally show ?thesis .
qed

lemma loudTone_scaled: "scaleSamples 5 quietTone = loudTone"
  by (simp add: scaleSamples_def quietTone_def loudTone_def)

lemma quietTone_fits: "fitsInt16 5 quietTone"
  by (simp add: fitsInt16_def quietTone_def list_all_iff)

text \<open>
  Two tones of 2097151 samples (262 seconds at 8 kHz), the second five times as loud as the
  first. The two block means of the quiet tone round to float64 values two units in the last
  place apart; those of the loud tone round to neighbouring values whose midpoint rounds
  back to the larger, so the bit of block 0 is lost.
\<close>

theorem scaling_by_five_changes_fingerprint:
  "fitsInt16 5 quietTone
   \<and> FingerprintFromSamples quietTone 2 = 2
   \<and> FingerprintFromSamples (scaleSamples 5 quietTone) 2 = 0"
  using quietTone_fits quietTone_fingerprint loudTone_fingerprint loudTone_scaled by simp

section \<open>Rounding error and monotonicity of float64 rounding\<close>

lemma roundEven_mono: "y1 \<le> y2 \<Longrightarrow> roundEven y1 \<le> roundEven y2"
proof -
  assume le: "y1 \<le> y2"
  then have fl: "\<lfloor>y1\<rfloor> \<le> \<lfloor>y2\<rfloor>" by (rule floor_mono)
  show ?thesis
  proof (cases "\<lfloor>y1\<rfloor> = \<lfloor>y2\<rfloor>")
    case True
    then show ?thesis using le by (auto simp: roundEven_def Let_def)
  next
    case False
    then have "\<lfloor>y1\<rfloor> + 1 \<le> \<lfloor>y2\<rfloor>" using fl by simp
    moreover have "roundEven y1 \<le> \<lfloor>y1\<rfloor> + 1" by (simp add: roundEven_def Let_def)
    ultimately show ?thesis using roundEven_ge_floor[of y2] by linarith
  qed
qed

lemma roundEven_err: "\<bar>of_int (roundEven y) - y\<bar> \<le> 1 / 2"
proof -
  define n where "n = \<lfloor>y\<rfloor>"
  define r where "r = y - of_int n"
  have r: "0 \<le> r" "r < 1" unfolding r_def n_def by linarith+
  have y: "y = of_int n + r" unfolding r_def by simp
  have re: "roundEven y = (if r < 1 / 2 then n else if 1 / 2 < r then n + 1
                           else if even n then n else n + 1)"
    unfolding roundEven_def Let_def r_def n_def by (rule refl)
  consider "r < 1 / 2" | "1 / 2 < r" | "r = 1 / 2" by linarith
  then show ?thesis
  proof cases
    case 1
    then have "roundEven y = n" using re by simp
    then show ?thesis using y r 1 by simp
  next
    case 2
    then have "roundEven y = n + 1" using re by simp
    then show ?thesis using y r 2 by simp
  next
    case 3
    then have "roundEven y = n \<or> roundEven y = n + 1" using re by simp
    then show ?thesis using y 3 by auto
  qed
qed

lemma expo_mono:
  assumes "0 < x" and "x \<le> y"
  shows "expo x \<le> expo y"
proof -
  have y: "0 < y" using assms by simp
  have "pow2 (expo x) \<le> x" using expo_bounds[OF assms(1)] by simp
  also have "x \<le> y" by (rule assms(2))
  also have "y < pow2 (expo y + 1)" using expo_bounds[OF y] by simp
  finally have "expo x < expo y + 1" by (rule pow2_less_imp)
  then show ?thesis by simp
qed

lemma fl64_binade:
  assumes x: "0 < x"
  shows "pow2 (expo x) \<le> fl64 x" and "fl64 x \<le> pow2 (expo x + 1)"
proof -
  let ?u = "pow2 (expo x - 52)"
  have u: "0 < ?u" by (rule pow2_pos)
  have fx: "fl64 x = of_int (roundEven (x / ?u)) * ?u" by (rule fl64_pos[OF x])
  have e1: "pow2 (expo x) = 2 ^ 52 * ?u"
    using pow2_add[of 52 "expo x - 52"] pow2_nat[of 52] by simp
  have e2: "pow2 (expo x + 1) = 2 ^ 53 * ?u"
    using pow2_add[of 53 "expo x - 52"] pow2_nat[of 53] by (simp add: algebra_simps)
  have "(of_int (2 ^ 52) :: rat) \<le> x / ?u" using scaled_bounds(1)[OF x] by simp
  then have "2 ^ 52 \<le> roundEven (x / ?u)" by (rule roundEven_ge)
  then have "(of_int (2 ^ 52) :: rat) \<le> of_int (roundEven (x / ?u))" by (simp only: of_int_le_iff)
  then have "2 ^ 52 * ?u \<le> of_int (roundEven (x / ?u)) * ?u" using u by (simp add: mult_right_mono)
  then show "pow2 (expo x) \<le> fl64 x" using e1 fx by simp
  have "x / ?u \<le> (of_int (2 ^ 53) :: rat)" using scaled_bounds(2)[OF x] by simp
  then have "roundEven (x / ?u) \<le> 2 ^ 53" by (rule roundEven_le)
  then have "(of_int (roundEven (x / ?u)) :: rat) \<le> of_int (2 ^ 53)" by (simp only: of_int_le_iff)
  then have "of_int (roundEven (x / ?u)) * ?u \<le> 2 ^ 53 * ?u" using u by (simp add: mult_right_mono)
  then show "fl64 x \<le> pow2 (expo x + 1)" using e2 fx by simp
qed

lemma fl64_mono:
  assumes "0 \<le> x" and "x \<le> y"
  shows "fl64 x \<le> fl64 y"
proof (cases "x = 0")
  case True
  then show ?thesis using fl64_representable[of y] assms by (simp add: fl64_zero)
next
  case False
  then have x: "0 < x" using assms(1) by simp
  then have y: "0 < y" using assms(2) by simp
  have e: "expo x \<le> expo y" by (rule expo_mono[OF x assms(2)])
  show ?thesis
  proof (cases "expo x = expo y")
    case True
    let ?u = "pow2 (expo y - 52)"
    have u: "0 < ?u" by (rule pow2_pos)
    have "x / ?u \<le> y / ?u" using assms(2) u by (simp add: divide_right_mono)
    then have "roundEven (x / ?u) \<le> roundEven (y / ?u)" by (rule roundEven_mono)
    then have "(of_int (roundEven (x / ?u)) :: rat) \<le> of_int (roundEven (y / ?u))"
      by (simp only: of_int_le_iff)
    then have "of_int (roundEven (x / ?u)) * ?u \<le> of_int (roundEven (y / ?u)) * ?u"
      using u by (simp add: mult_right_mono)
    then show ?thesis using fl64_pos[OF x] fl64_pos[OF y] True by simp
  next
    case False
    then have "expo x + 1 \<le> expo y" using e by simp
    then have "pow2 (expo x + 1) \<le> pow2 (expo y)" by (rule pow2_mono)
    then show ?thesis using fl64_binade(2)[OF x] fl64_binade(1)[OF y] by linarith
  qed
qed

lemma fl64_err:
  assumes x: "0 < x"
  shows "\<bar>fl64 x - x\<bar> \<le> pow2 (expo x - 53)"
proof -
  define U where "U = pow2 (expo x - 52)"
  have u: "0 < U" unfolding U_def by (rule pow2_pos)
  have fx: "fl64 x = of_int (roundEven (x / U)) * U" unfolding U_def by (rule fl64_pos[OF x])
  have "fl64 x - x = (of_int (roundEven (x / U)) - x / U) * U"
    using fx u by (simp add: algebra_simps)
  then have "\<bar>fl64 x - x\<bar> = \<bar>of_int (roundEven (x / U)) - x / U\<bar> * U"
    using u by (simp add: abs_mult)
  also have "\<dots> \<le> (1 / 2) * U" using roundEven_err[of "x / U"] u by (simp add: mult_right_mono)
  also have "\<dots> = pow2 (expo x - 53)"
    unfolding U_def using pow2_add[of "expo x - 53" 1] pow2_nat[of 1] by simp
  finally show ?thesis .
qed

lemma fl64_pow2: "fl64 (pow2 E) = pow2 E"
proof -
  have "representable (pow2 E)" unfolding representable_def by (intro exI[of _ 1] exI[of _ E]) simp
  then show ?thesis using pow2_pos[of E] by (rule fl64_representable_id)
qed

lemma fl64_err_le:
  assumes "0 \<le> x" and "x \<le> pow2 E"
  shows "\<bar>fl64 x - x\<bar> \<le> pow2 (E - 54)"
proof (cases "x = 0 \<or> x = pow2 E")
  case True
  then show ?thesis using fl64_pow2[of E] pow2_pos[of "E - 54"] by (auto simp: fl64_zero)
next
  case False
  then have x: "0 < x" "x < pow2 E" using assms by simp_all
  have "pow2 (expo x) \<le> x" using expo_bounds[OF x(1)] by simp
  then have "pow2 (expo x) < pow2 E" using x(2) by simp
  then have "expo x < E" by (rule pow2_less_imp)
  then have "pow2 (expo x - 53) \<le> pow2 (E - 54)" by (intro pow2_mono) simp
  then show ?thesis using fl64_err[OF x(1)] by linarith
qed

lemma fl64_upper:
  assumes "0 \<le> x" and "x \<le> pow2 E"
  shows "fl64 x \<le> pow2 E"
  using fl64_mono[OF assms] fl64_pow2[of E] by simp

lemma grid_separation:
  assumes x: "onGrid x" and m: "onGrid m" and lt: "m < x"
  shows "m + 1 / 2 ^ 36 \<le> x"
proof -
  from x obtain N d where xd: "x = of_int N / of_nat d" "1 \<le> d" "d \<le> 262144"
    unfolding onGrid_def by blast
  from m obtain N' d' where md: "m = of_int N' / of_nat d'" "1 \<le> d'" "d' \<le> 262144"
    unfolding onGrid_def by blast
  have dp: "(0::rat) < of_nat d" "(0::rat) < of_nat d'" using xd(2) md(2) by simp_all
  have "of_int N' * of_nat d < (of_int N * of_nat d' :: rat)"
    using lt xd(1) md(1) dp by (simp add: field_simps)
  then have "(of_int (N' * int d) :: rat) < of_int (N * int d')" by simp
  then have "N' * int d < N * int d'" by (simp only: of_int_less_iff)
  then have "N' * int d + 1 \<le> N * int d'" by simp
  then have "(of_int (N' * int d + 1) :: rat) \<le> of_int (N * int d')" by (simp only: of_int_le_iff)
  then have i: "of_int N' * of_nat d + 1 \<le> (of_int N * of_nat d' :: rat)" by simp
  have "x - m = (of_int N * of_nat d' - of_int N' * of_nat d) / (of_nat d * of_nat d')"
    unfolding xd(1) md(1) using dp by (simp add: diff_frac_eq)
  moreover have "1 / (of_nat d * of_nat d') \<le> (of_int N * of_nat d' - of_int N' * of_nat d) / (of_nat d * of_nat d' :: rat)"
    using i dp by (intro divide_right_mono) simp_all
  moreover have "(1::rat) / 2 ^ 36 \<le> 1 / (of_nat d * of_nat d')"
  proof -
    have "d * d' \<le> 262144 * 262144" using xd(3) md(3) by (rule mult_le_mono)
    then have "(of_nat (d * d') :: rat) \<le> of_nat (262144 * 262144)" by (simp only: of_nat_le_iff)
    then have "(of_nat d * of_nat d' :: rat) \<le> 2 ^ 36" by simp
    then show ?thesis using dp by (intro divide_left_mono) simp_all
  qed
  ultimately show ?thesis by linarith
qed

lemma onGrid_bounds: "onGrid x \<Longrightarrow> 0 \<le> x \<and> x \<le> pow2 15"
proof -
  assume "onGrid x"
  then obtain N d where "x = of_int N / of_nat d" "0 \<le> N" "1 \<le> d" "x \<le> 32768"
    unfolding onGrid_def by blast
  then show ?thesis using pow2_nat[of 15] by simp
qed

lemma fl64_grid_less:
  assumes x: "onGrid x" and m: "onGrid m"
  shows "fl64 m < fl64 x \<longleftrightarrow> m < x"
proof
  assume "fl64 m < fl64 x"
  show "m < x"
  proof (rule ccontr)
    assume "\<not> m < x"
    then have "x \<le> m" by simp
    then have "fl64 x \<le> fl64 m" using onGrid_bounds[OF x] by (intro fl64_mono) simp_all
    with \<open>fl64 m < fl64 x\<close> show False by simp
  qed
next
  assume lt: "m < x"
  have s: "m + 1 / 2 ^ 36 \<le> x" by (rule grid_separation[OF x m lt])
  define h where "h = (1::rat) / 2 ^ 39"
  have h: "0 < h" "(1::rat) / 2 ^ 36 = 8 * h" unfolding h_def by simp_all
  have p: "pow2 (15 - 54) = h" unfolding h_def by (simp add: pow2_def)
  have ex: "\<bar>fl64 x - x\<bar> \<le> h" using fl64_err_le[of x 15] onGrid_bounds[OF x] p by simp
  have em: "\<bar>fl64 m - m\<bar> \<le> h" using fl64_err_le[of m 15] onGrid_bounds[OF m] p by simp
  have "m + 8 * h \<le> x" using s h(2) by simp
  then show "fl64 m < fl64 x" using ex em h(1) by linarith
qed

section \<open>The rounded comparison against the exact one\<close>

lemma sort_map_mono:
  fixes f :: "'a::linorder \<Rightarrow> 'b::linorder"
  assumes "\<And>x y. x \<in> set xs \<Longrightarrow> y \<in> set xs \<Longrightarrow> x \<le> y \<Longrightarrow> f x \<le> f y"
  shows "sort (map f xs) = map f (sort xs)"
proof (rule properties_for_sort)
  show "mset (map f (sort xs)) = mset (map f xs)" by simp
  have "sorted_wrt (\<le>) (sort xs)" by simp
  then have "sorted_wrt (\<lambda>x y. f x \<le> f y) (sort xs)"
    by (rule sorted_wrt_mono_rel[rotated]) (use assms in simp)
  then show "sorted (map f (sort xs))" by (simp add: sorted_map)
qed

lemma fl64_double_half:
  assumes "representable f" and "0 \<le> f"
  shows "fl64 (fl64 (f + f) / 2) = f"
proof (cases "f = 0")
  case True
  then show ?thesis by (simp add: fl64_zero)
next
  case False
  then have f: "0 < f" using assms(2) by simp
  have "fl64 (2 * f) = 2 * f"
    by (rule fl64_representable_id[OF representable_double[OF assms(1)]]) (use f in simp)
  then have "fl64 (f + f) / 2 = f" by simp
  then show ?thesis using fl64_representable_id[OF assms(1) f] by simp
qed

lemma fl64_grid:
  assumes "onGrid x"
  shows "representable (fl64 x)" and "0 \<le> fl64 x" and "fl64 x \<le> pow2 15"
    and "\<bar>fl64 x - x\<bar> \<le> 1 / 2 ^ 39"
proof -
  have b: "0 \<le> x" "x \<le> pow2 15" using onGrid_bounds[OF assms] by simp_all
  show "representable (fl64 x)" "0 \<le> fl64 x" using fl64_representable[OF b(1)] by simp_all
  show "fl64 x \<le> pow2 15" by (rule fl64_upper[OF b])
  have "pow2 (15 - 54) = 1 / 2 ^ 39" by (simp add: pow2_def)
  then show "\<bar>fl64 x - x\<bar> \<le> 1 / 2 ^ 39" using fl64_err_le[OF b] by simp
qed

lemma midpoint_strict:
  assumes a: "onGrid a" and b: "onGrid b" and lt: "a < b"
  shows "fl64 (fl64 (fl64 a + fl64 b) / 2) < fl64 b"
proof -
  define h where "h = (1::rat) / 2 ^ 39"
  have h: "0 < h" "(1::rat) / 2 ^ 36 = 8 * h" unfolding h_def by simp_all
  define a' where "a' = fl64 a"
  define b' where "b' = fl64 b"
  have ea: "\<bar>a' - a\<bar> \<le> h" "0 \<le> a'" "a' \<le> pow2 15"
    unfolding a'_def h_def using fl64_grid[OF a] by simp_all
  have eb: "\<bar>b' - b\<bar> \<le> h" "0 \<le> b'" "b' \<le> pow2 15"
    unfolding b'_def h_def using fl64_grid[OF b] by simp_all
  have sep: "a + 8 * h \<le> b" using grid_separation[OF b a lt] h(2) by simp
  define w where "w = fl64 (a' + b')"
  have p16: "pow2 16 = pow2 15 + pow2 15" using pow2_add[of 15 1] pow2_nat[of 1] by simp
  have z: "0 \<le> a' + b'" "a' + b' \<le> pow2 16" using ea eb p16 by simp_all
  have "pow2 (16 - 54) = 2 * h" unfolding h_def by (simp add: pow2_def)
  then have ew: "\<bar>w - (a' + b')\<bar> \<le> 2 * h" unfolding w_def using fl64_err_le[OF z] by simp
  have w: "0 \<le> w" "w \<le> pow2 16"
    unfolding w_def using fl64_representable[OF z(1)] fl64_upper[OF z] by simp_all
  have w2: "0 \<le> w / 2" "w / 2 \<le> pow2 15" using w p16 by simp_all
  have "pow2 (15 - 54) = h" unfolding h_def by (simp add: pow2_def)
  then have em: "\<bar>fl64 (w / 2) - w / 2\<bar> \<le> h" using fl64_err_le[OF w2] by simp
  have "fl64 (w / 2) < b'" using ea(1) eb(1) sep ew em h(1) by linarith
  then show ?thesis unfolding w_def a'_def b'_def .
qed

lemma median_comparison:
  assumes ne: "ex \<noteq> []" and g: "\<And>x. x \<in> set ex \<Longrightarrow> onGrid x" and x: "x \<in> set ex"
  shows "median (map fl64 ex) < fl64 x \<longleftrightarrow> exactMedian ex < x"
proof -
  let ?s = "sort ex"
  let ?n = "length ex"
  have n: "0 < ?n" using ne by simp
  have srt: "sorted ?s" by simp
  have mono: "\<And>x y. x \<in> set ex \<Longrightarrow> y \<in> set ex \<Longrightarrow> x \<le> y \<Longrightarrow> fl64 x \<le> fl64 y"
    using onGrid_bounds[OF g] by (intro fl64_mono) simp_all
  have tmp: "sort (map fl64 ex) = map fl64 ?s" by (rule sort_map_mono[OF mono])
  have gs: "\<And>j. j < ?n \<Longrightarrow> onGrid (?s ! j)"
  proof -
    fix j assume "j < ?n"
    then have "?s ! j \<in> set ?s" by (intro nth_mem) simp
    then show "onGrid (?s ! j)" using g by simp
  qed
  have "x \<in> set ?s" using x by simp
  then have "\<exists>j<length ?s. ?s ! j = x" unfolding in_set_conv_nth by blast
  then obtain j where j0: "j < length ?s" "?s ! j = x" by blast
  have j: "j < ?n" "x = ?s ! j" using j0 by simp_all
  show ?thesis
  proof (cases "?n mod 2 = 0")
    case False
    have k: "?n div 2 < ?n" using n by simp
    have "median (map fl64 ex) = fl64 (?s ! (?n div 2))"
      using False k by (simp add: median_def Let_def tmp)
    moreover have "exactMedian ex = ?s ! (?n div 2)"
      using False by (simp add: exactMedian_def Let_def)
    ultimately show ?thesis using fl64_grid_less[OF g[OF x] gs[OF k]] by simp
  next
    case True
    then have k: "?n div 2 < ?n" "?n div 2 - 1 < ?n" "?n div 2 - 1 \<le> ?n div 2"
      "Suc (?n div 2 - 1) = ?n div 2"
      using n by presburger+
    define a where "a = ?s ! (?n div 2 - 1)"
    define b where "b = ?s ! (?n div 2)"
    have ga: "onGrid a" and gb: "onGrid b" unfolding a_def b_def using gs k by simp_all
    have ab: "a \<le> b" unfolding a_def b_def using sorted_nth_mono[OF srt k(3)] k(1) by simp
    have med: "median (map fl64 ex) = fl64 (fl64 (fl64 a + fl64 b) / 2)"
      unfolding a_def b_def using True k by (simp add: median_def Let_def tmp)
    have emed: "exactMedian ex = (a + b) / 2"
      unfolding a_def b_def using True by (simp add: exactMedian_def Let_def)
    have fab: "fl64 a \<le> fl64 b" using ab onGrid_bounds[OF ga] by (intro fl64_mono) simp_all
    show ?thesis
    proof (cases "j \<le> ?n div 2 - 1")
      case True
      then have xa: "x \<le> a" unfolding a_def j(2) using sorted_nth_mono[OF srt True] k(2) by simp
      then have "\<not> exactMedian ex < x" using emed ab by simp
      moreover have "\<not> median (map fl64 ex) < fl64 x"
      proof -
        have "fl64 x \<le> fl64 a" using xa onGrid_bounds[OF g[OF x]] by (intro fl64_mono) simp_all
        moreover have "fl64 a \<le> fl64 (fl64 (fl64 a + fl64 b) / 2)"
          using fl64_grid(1,2)[OF ga] fab by (intro fl64_midpoint_ge) simp_all
        ultimately show ?thesis using med by simp
      qed
      ultimately show ?thesis by simp
    next
      case False
      then have "?n div 2 \<le> j" using k(4) by simp
      then have bx: "b \<le> x" unfolding b_def j(2) using sorted_nth_mono[OF srt, of "?n div 2" j] j(1) by simp
      have fbx: "fl64 b \<le> fl64 x" using bx onGrid_bounds[OF gb] by (intro fl64_mono) simp_all
      show ?thesis
      proof (cases "a = b")
        case True
        have "fl64 (fl64 (fl64 b + fl64 b) / 2) = fl64 b"
          using fl64_grid(1,2)[OF gb] by (intro fl64_double_half) simp_all
        then have "median (map fl64 ex) = fl64 b" using med True by simp
        moreover have "exactMedian ex = b" using emed True by simp
        ultimately show ?thesis using fl64_grid_less[OF g[OF x] gb] by simp
      next
        case False
        then have lt: "a < b" using ab by simp
        have "median (map fl64 ex) < fl64 b" using midpoint_strict[OF ga gb lt] med by simp
        then have "median (map fl64 ex) < fl64 x" using fbx by simp
        moreover have "exactMedian ex < x" using emed lt bx by simp
        ultimately show ?thesis by simp
      qed
    qed
  qed
qed

section \<open>Block means without rounding\<close>

lemma abs_sint16: "\<bar>sint (v :: int16)\<bar> \<le> 32768"
  using sint_ge[of v] sint_lt[of v] by simp

lemma absSum_bounds: "0 \<le> absSum xs \<and> absSum xs \<le> 32768 * int (length xs)"
proof (induction xs)
  case Nil
  then show ?case by (simp add: absSum_def)
next
  case (Cons v xs)
  then show ?case using abs_sint16[of v] by (simp add: absSum_def)
qed

lemma accumulate_abs:
  assumes "0 \<le> S" and "S + \<bar>sint v\<bar> \<le> 2 ^ 53"
  shows "accumulate v (of_int S) = of_int (S + \<bar>sint v\<bar>)"
proof -
  have "accumulate v (of_int S) = fl64 (of_int (S + \<bar>sint v\<bar>))"
    by (simp add: accumulate_def abs_if)
  also have "\<dots> = of_int (S + \<bar>sint v\<bar>)" using assms by (intro fl64_int) simp_all
  finally show ?thesis .
qed

lemma fold_accumulate_exact:
  assumes "0 \<le> S" and "S + 32768 * int (length xs) \<le> 2 ^ 53"
  shows "fold accumulate xs (of_int S) = of_int (S + absSum xs)"
  using assms
proof (induction xs arbitrary: S)
  case Nil
  then show ?case by (simp add: absSum_def)
next
  case (Cons v xs)
  have a: "\<bar>sint v\<bar> \<le> 32768" by (rule abs_sint16)
  have 1: "S + \<bar>sint v\<bar> \<le> 2 ^ 53" using Cons.prems a by simp
  have 2: "0 \<le> S + \<bar>sint v\<bar>" using Cons.prems by simp
  have 3: "S + \<bar>sint v\<bar> + 32768 * int (length xs) \<le> 2 ^ 53" using Cons.prems a by simp
  have "fold accumulate (v # xs) (of_int S) = fold accumulate xs (of_int (S + \<bar>sint v\<bar>))"
    using accumulate_abs[OF Cons.prems(1) 1] by simp
  also have "\<dots> = of_int (S + \<bar>sint v\<bar> + absSum xs)" by (rule Cons.IH[OF 2 3])
  also have "S + \<bar>sint v\<bar> + absSum xs = S + absSum (v # xs)" by (simp add: absSum_def)
  finally show ?case .
qed

lemma fold_accumulate_block:
  assumes "length xs \<le> 262144"
  shows "fold accumulate xs 0 = of_int (absSum xs)"
proof -
  have "32768 * int (length xs) \<le> 32768 * 262144" using assms by simp
  then have "0 + 32768 * int (length xs) \<le> 2 ^ 53" by simp
  from fold_accumulate_exact[OF order_refl this] show ?thesis by simp
qed

lemma blockAverage_exact:
  assumes sz: "sz \<le> 262144"
  shows "blockAverage samples sz i = fl64 (exactMean (take sz (drop (i * sz) samples)))"
proof (cases "i * sz \<ge> length samples")
  case True
  then show ?thesis by (simp add: blockAverage_def exactMean_def fl64_zero)
next
  case False
  let ?start = "i * sz"
  let ?end1 = "if ?start + sz > length samples then length samples else ?start + sz"
  let ?blk = "take sz (drop ?start samples)"
  have c: "?end1 - ?start = length ?blk"
    using False by auto
  have t: "take (length ?blk) (drop ?start samples) = ?blk"
    by (simp add: min_def)
  have l: "length ?blk \<le> 262144" using sz by simp
  have e: "(length ?blk = 0) = (?blk = [])" by (rule length_0_conv)
  have "blockAverage samples sz i =
      (if length ?blk = 0 then 0 else fl64 (fold accumulate ?blk 0 / of_nat (length ?blk)))"
    unfolding blockAverage_def Let_def c t using False by (simp only: if_False)
  also have "\<dots> = fl64 (exactMean ?blk)"
    unfolding fold_accumulate_block[OF l] exactMean_def e by (simp only: fl64_zero if_distrib[of fl64])
  finally show ?thesis .
qed

lemma exactMean_onGrid:
  assumes "length block \<le> 262144"
  shows "onGrid (exactMean block)"
proof (cases "block = []")
  case True
  then have "exactMean block = 0" by (simp add: exactMean_def)
  then show ?thesis unfolding onGrid_def by (intro exI[of _ 0] exI[of _ 1]) simp
next
  case False
  then have l: "1 \<le> length block" by (cases block) simp_all
  have "of_int (absSum block) \<le> (of_int (32768 * int (length block)) :: rat)"
    using absSum_bounds[of block] by (simp only: of_int_le_iff)
  then have "of_int (absSum block) \<le> (32768 :: rat) * of_nat (length block)" by simp
  moreover have lp: "(0::rat) < of_nat (length block)" using False by simp
  ultimately have "of_int (absSum block) / of_nat (length block) \<le> (32768 :: rat)"
    by (simp only: pos_divide_le_eq[OF lp])
  moreover have "0 \<le> absSum block" using absSum_bounds[of block] by simp
  ultimately have "\<exists>N d. exactMean block = of_int N / of_nat d \<and> 0 \<le> N \<and> 1 \<le> d \<and> d \<le> 262144
      \<and> exactMean block \<le> 32768"
    using False l assms unfolding exactMean_def
    by (intro exI[of _ "absSum block"] exI[of _ "length block"]) simp
  then show ?thesis unfolding onGrid_def .
qed

lemma blockSize_bound:
  assumes "0 < (b::nat)" and "n \<le> 262144 * b"
  shows "(n + b - 1) div b \<le> 262144"
proof -
  have "n + b - 1 < 262145 * b" using assms by simp
  then have "(n + b - 1) div b < 262145" using assms(1) by (simp add: less_mult_imp_div_less)
  then show ?thesis by simp
qed

lemma blockAverages_exact:
  assumes "0 < b" and "length samples \<le> 262144 * b"
  shows "blockAverages samples b = map fl64 (exactMeans samples b)"
  unfolding blockAverages_def exactMeans_def map_map comp_def
  by (rule map_cong[OF refl]) (rule blockAverage_exact[OF blockSize_bound[OF assms]])

lemma exactMeans_onGrid:
  assumes "0 < b" and "length samples \<le> 262144 * b" and "x \<in> set (exactMeans samples b)"
  shows "onGrid x"
proof -
  from assms(3) obtain i where
    "x = exactMean (take ((length samples + b - 1) div b)
                      (drop (i * ((length samples + b - 1) div b)) samples))"
    unfolding exactMeans_def set_map by blast
  moreover have "length (take ((length samples + b - 1) div b)
                      (drop (i * ((length samples + b - 1) div b)) samples)) \<le> 262144"
    using blockSize_bound[OF assms(1,2)] by simp
  ultimately show ?thesis using exactMean_onGrid by simp
qed

section \<open>Scaling the samples\<close>

lemma sint_scaled:
  assumes "- 32768 \<le> c * sint v" and "c * sint v \<le> 32767"
  shows "sint (word_of_int (c * sint v) :: int16) = c * sint (v :: int16)"
proof -
  have "signed_take_bit 15 (c * sint v) = c * sint v"
    using assms by (intro signed_take_bit_int_eq_self) simp_all
  moreover have "sint (word_of_int (c * sint v) :: int16)
      = signed_take_bit (LENGTH(16) - 1) (c * sint v)"
    by (rule sint_sbintrunc')
  moreover have "LENGTH(16) - 1 = (15::nat)" by simp
  ultimately show ?thesis by (simp only:)
qed

lemma absSum_scaled:
  assumes "0 < c" and "fitsInt16 c xs"
  shows "absSum (scaleSamples c xs) = c * absSum xs"
  using assms(2)
proof (induction xs)
  case Nil
  then show ?case by (simp add: absSum_def scaleSamples_def)
next
  case (Cons v xs)
  then have f: "- 32768 \<le> c * sint v" "c * sint v \<le> 32767" "fitsInt16 c xs"
    by (simp_all add: fitsInt16_def)
  have "\<bar>c * sint v\<bar> = c * \<bar>sint v\<bar>" using assms(1) by (simp add: abs_mult)
  then have "\<bar>sint (word_of_int (c * sint v) :: int16)\<bar> = c * \<bar>sint v\<bar>"
    using sint_scaled[OF f(1,2)] by simp
  moreover have "absSum (scaleSamples c (v # xs))
      = \<bar>sint (word_of_int (c * sint v) :: int16)\<bar> + absSum (scaleSamples c xs)"
    by (simp add: absSum_def scaleSamples_def)
  moreover have "absSum (v # xs) = \<bar>sint v\<bar> + absSum xs" by (simp add: absSum_def)
  ultimately show ?case using Cons.IH[OF f(3)] by (simp add: algebra_simps)
qed

lemma exactMean_scaled:
  assumes "0 < c" and "fitsInt16 c xs"
  shows "exactMean (scaleSamples c xs) = of_int c * exactMean xs"
proof -
  have "length (scaleSamples c xs) = length xs" "(scaleSamples c xs = []) = (xs = [])"
    by (simp_all add: scaleSamples_def)
  then show ?thesis unfolding exactMean_def absSum_scaled[OF assms] by simp
qed

lemma fitsInt16_take_drop: "fitsInt16 c xs \<Longrightarrow> fitsInt16 c (take n (drop k xs))"
  unfolding fitsInt16_def list_all_iff
  using set_take_subset[of n "drop k xs"] set_drop_subset[of k xs] by blast

lemma scaleSamples_take_drop:
  "take n (drop k (scaleSamples c xs)) = scaleSamples c (take n (drop k xs))"
  by (simp add: scaleSamples_def take_map drop_map)

lemma exactMeans_scaled:
  assumes "0 < c" and "fitsInt16 c samples"
  shows "exactMeans (scaleSamples c samples) b = map ((*) (of_int c)) (exactMeans samples b)"
proof -
  have l: "length (scaleSamples c samples) = length samples" by (simp add: scaleSamples_def)
  show ?thesis
    unfolding exactMeans_def l scaleSamples_take_drop
    using exactMean_scaled[OF assms(1) fitsInt16_take_drop[OF assms(2)]] by simp
qed

lemma exactMedian_scaled:
  assumes k: "(0::rat) < k" and ne: "xs \<noteq> []"
  shows "exactMedian (map ((*) k) xs) = k * exactMedian xs"
proof -
  let ?n = "length xs"
  have n: "0 < ?n" using ne by simp
  have s: "sort (map ((*) k) xs) = map ((*) k) (sort xs)"
    by (rule sort_map_mono) (use k in simp)
  have "?n div 2 < ?n" "?n div 2 - 1 < ?n" using n by presburger+
  then have i: "?n div 2 < length (sort xs)" "?n div 2 - 1 < length (sort xs)" by simp_all
  show ?thesis
    unfolding exactMedian_def Let_def s
    using nth_map[OF i(1), of "(*) k"] nth_map[OF i(2), of "(*) k"]
    by (simp add: algebra_simps)
qed

lemma bit_exact:
  assumes ne: "samples \<noteq> []" and b: "0 < b" and len: "length samples \<le> 262144 * b"
  shows "bit (FingerprintFromSamples samples (int b)) p \<longleftrightarrow>
           p < b \<and> p < 64 \<and> exactMedian (exactMeans samples b) < exactMeans samples b ! (b - 1 - p)"
proof (cases "p < b")
  case False
  then show ?thesis unfolding FingerprintFromSamples_bit_iff[OF ne b] by simp
next
  case True
  let ?ex = "exactMeans samples b"
  have l: "length ?ex = b" by (simp add: exactMeans_def)
  then have i: "b - 1 - p < length ?ex" using b by simp
  have ne': "?ex \<noteq> []" using l b by auto
  have x: "?ex ! (b - 1 - p) \<in> set ?ex" using i by (rule nth_mem)
  have "median (map fl64 ?ex) < fl64 (?ex ! (b - 1 - p)) \<longleftrightarrow> exactMedian ?ex < ?ex ! (b - 1 - p)"
    using ne' exactMeans_onGrid[OF b len] x by (rule median_comparison)
  then show ?thesis
    unfolding FingerprintFromSamples_bit_iff[OF ne b] blockAverages_exact[OF b len] nth_map[OF i]
    by simp
qed

text \<open>
  C7. Volume invariance on blocks of at most 262144 samples: for every width \<open>b\<close> from 1 to
  64, every sample sequence of at most \<open>262144 * b\<close> samples and every positive integer \<open>c\<close>
  such that \<open>c * x\<close> stays within the signed 16-bit range for every sample \<open>x\<close>, the
  fingerprint of the scaled samples equals the fingerprint of the samples.
\<close>

theorem volume_invariance_on_short_blocks:
  assumes "1 \<le> b" and "b \<le> 64" and "0 < c" and "fitsInt16 c samples"
    and "length samples \<le> 262144 * nat b"
  shows "FingerprintFromSamples (scaleSamples c samples) b = FingerprintFromSamples samples b"
proof (cases "samples = []")
  case True
  then show ?thesis by (simp add: scaleSamples_def)
next
  case False
  define n where "n = nat b"
  have n: "0 < n" "int n = b" unfolding n_def using assms(1) by simp_all
  have len: "length samples \<le> 262144 * n" unfolding n_def by (rule assms(5))
  have ne': "scaleSamples c samples \<noteq> []" using False by (simp add: scaleSamples_def)
  have len': "length (scaleSamples c samples) \<le> 262144 * n"
    using len by (simp add: scaleSamples_def)
  let ?ex = "exactMeans samples n"
  have l: "length ?ex = n" by (simp add: exactMeans_def)
  have nex: "?ex \<noteq> []" using l n(1) by auto
  have c: "(0::rat) < of_int c" using assms(3) by simp
  have "bit (FingerprintFromSamples (scaleSamples c samples) (int n)) p
      = bit (FingerprintFromSamples samples (int n)) p" for p
  proof (cases "p < n")
    case False
    then show ?thesis unfolding bit_exact[OF ne' n(1) len'] bit_exact[OF \<open>samples \<noteq> []\<close> n(1) len] by simp
  next
    case True
    then have i: "n - 1 - p < length ?ex" using l by simp
    have "(of_int c * exactMedian ?ex < of_int c * ?ex ! (n - 1 - p))
        = (exactMedian ?ex < ?ex ! (n - 1 - p))"
      using c by (rule mult_less_cancel_left_pos)
    then show ?thesis
      unfolding bit_exact[OF ne' n(1) len'] bit_exact[OF \<open>samples \<noteq> []\<close> n(1) len]
        exactMeans_scaled[OF assms(3,4)] exactMedian_scaled[OF c nex] nth_map[OF i]
      by simp
  qed
  then have "FingerprintFromSamples (scaleSamples c samples) (int n)
      = FingerprintFromSamples samples (int n)"
    by (rule bit_eqI)
  then show ?thesis unfolding n(2) .
qed

theorem volume_invariance_on_short_blocks_witness:
  "(1::int) \<le> 4 \<and> (4::int) \<le> 64 \<and> (0::int) < 3
   \<and> fitsInt16 3 [100, - 200, 300, - 400, 5000, 6, 70, - 8]
   \<and> length [100, - 200, 300, - 400, 5000, 6, 70, - 8 :: int16] \<le> 262144 * nat 4
   \<and> FingerprintFromSamples (scaleSamples 3 [100, - 200, 300, - 400, 5000, 6, 70, - 8]) 4
       = FingerprintFromSamples [100, - 200, 300, - 400, 5000, 6, 70, - 8] 4
   \<and> scaleSamples 3 [100, - 200, 300, - 400, 5000, 6, 70, - 8]
       = [300, - 600, 900, - 1200, 15000, 18, 210, - 24]
   \<and> FingerprintFromSamples [100, - 200, 300, - 400, 5000, 6, 70, - 8] 4 = 6"
proof -
  have 1: "(1::int) \<le> 4" and 2: "(4::int) \<le> 64" and 3: "(0::int) < 3" by simp_all
  have 4: "fitsInt16 3 [100, - 200, 300, - 400, 5000, 6, 70, - 8]" by code_simp
  have 5: "length [100, - 200, 300, - 400, 5000, 6, 70, - 8 :: int16] \<le> 262144 * nat 4" by simp
  have 6: "scaleSamples 3 [100, - 200, 300, - 400, 5000, 6, 70, - 8]
       = [300, - 600, 900, - 1200, 15000, 18, 210, - 24]" by code_simp
  have 7: "FingerprintFromSamples [100, - 200, 300, - 400, 5000, 6, 70, - 8] 4 = 6" by code_simp
  from volume_invariance_on_short_blocks[OF 1 2 3 4 5] 1 2 3 4 5 6 7
  show ?thesis by (intro conjI)
qed

section \<open>The fingerprint against its reference definition\<close>

lemma spec_blockSize_eq:
  assumes b: "0 < b"
  shows "spec_blockSize n b = (n + b - 1) div b"
proof -
  let ?k = "(n + b - 1) div b"
  have le: "?k * b \<le> n + b - 1" by (rule div_times_less_eq_dividend)
  have lt: "n + b - 1 < b + ?k * b" using b by (rule dividend_less_div_times)
  define K where "K = int ?k"
  have m: "int (?k * b) = K * int b" unfolding K_def by (rule of_nat_mult)
  have I1: "(K - 1) * int b < int n"
  proof -
    have "int (?k * b) \<le> int (n + b - 1)" by (rule of_nat_mono[OF le])
    moreover have "int (n + b - 1) = int n + int b - 1" using b by (simp add: of_nat_diff)
    ultimately have "K * int b \<le> int n + int b - 1" using m by (simp only:)
    then show ?thesis by (simp add: algebra_simps)
  qed
  have I2: "int n \<le> K * int b"
  proof -
    have "n \<le> ?k * b" using lt b by linarith
    then have "int n \<le> int (?k * b)" by (rule of_nat_mono)
    then show ?thesis using m by (simp only:)
  qed
  have bpos: "(0::rat) < of_nat b" using b by simp
  have "(of_int ((K - 1) * int b) :: rat) < of_int (int n)" using I1 by (simp only: of_int_less_iff)
  then have "(of_int K - 1) * of_nat b < (of_nat n :: rat)" by simp
  then have 1: "of_int K - 1 < (of_nat n :: rat) / of_nat b"
    using bpos by (simp add: pos_less_divide_eq)
  have "(of_int (int n) :: rat) \<le> of_int (K * int b)" using I2 by (simp only: of_int_le_iff)
  then have "(of_nat n :: rat) \<le> of_int K * of_nat b" by simp
  then have 2: "(of_nat n :: rat) / of_nat b \<le> of_int K"
    using bpos by (simp add: pos_divide_le_eq)
  have "\<lceil>(of_nat n :: rat) / of_nat b\<rceil> = K" using 1 2 by (rule ceiling_unique)
  then have "nat \<lceil>(of_nat n :: rat) / of_nat b\<rceil> = ?k" unfolding K_def by (simp only: nat_int)
  then show ?thesis by (simp only: spec_blockSize_def)
qed

lemma spec_rectifiedMean_exact: "spec_rectifiedMean block = exactMean block"
  by (simp add: spec_rectifiedMean_def exactMean_def absSum_def)

lemma spec_median_exact: "spec_median ms = exactMedian ms"
  by (simp add: spec_median_def exactMedian_def Let_def even_iff_mod_2_eq_zero)

lemma spec_means_exact:
  "0 < b \<Longrightarrow> map spec_rectifiedMean (spec_blocks samples b) = exactMeans samples b"
  by (simp add: spec_blocks_def exactMeans_def spec_blockSize_eq spec_rectifiedMean_exact)

lemma bit_Fingerprint_spec:
  assumes ne: "samples \<noteq> []" and b: "0 < b"
  shows "bit (Fingerprint_spec samples b) p \<longleftrightarrow>
           p < b \<and> p < 64 \<and> exactMedian (exactMeans samples b) < exactMeans samples b ! (b - 1 - p)"
  using ne
  by (auto simp: Fingerprint_spec_def Let_def bit_horner_sum_bit_word_iff spec_means_exact[OF b]
      spec_median_exact)

lemma exactMean_two_tone: 
  "exactMean (replicate n x @ [y]) = of_int (int n * \<bar>sint x\<bar> + \<bar>sint y\<bar>) / of_nat (Suc n)"
  by (simp add: exactMean_def absSum_def sum_list_replicate del: of_nat_Suc)

lemma exactMeans_two_tone:
  assumes xs: "samples = replicate (Suc b) x @ [y] @ replicate b x @ [y]"
  shows "exactMeans samples 2
      = [of_int (int (Suc b) * \<bar>sint x\<bar> + \<bar>sint y\<bar>) / of_nat (Suc (Suc b)),
         of_int (int b * \<bar>sint x\<bar> + \<bar>sint y\<bar>) / of_nat (Suc b)]"
proof -
  have len: "length samples = 2 * b + 3" using xs by simp
  have sz: "(length samples + 2 - 1) div 2 = Suc (Suc b)" using len by simp
  have up: "[0..<2] = [0, Suc 0]" by (simp add: upt_rec)
  have t0: "take (Suc (Suc b)) (drop (0 * Suc (Suc b)) samples) = replicate (Suc b) x @ [y]"
    using xs by simp
  have t1: "take (Suc (Suc b)) (drop (Suc 0 * Suc (Suc b)) samples) = replicate b x @ [y]"
    using xs by simp
  show ?thesis
    unfolding exactMeans_def sz up list.map t0 t1 exactMean_two_tone by (rule refl)
qed

lemma Fingerprint_spec_loudTone: "Fingerprint_spec loudTone 2 = 2"
proof -
  have xs: "loudTone = replicate (Suc 1048574) 16385 @ [16380] @ replicate 1048574 16385 @ [16380]"
    by (simp add: loudTone_def)
  have ne: "loudTone \<noteq> []" by (simp add: loudTone_def)
  have x: "sint (16385 :: int16) = 16385" and y: "sint (16380 :: int16) = 16380" by simp_all
  have m: "map spec_rectifiedMean (spec_blocks loudTone 2)
      = [17180917755 / 1048576, 17180901370 / 1048575]"
    unfolding spec_means_exact[of 2 loudTone, simplified] exactMeans_two_tone[OF xs]
    by (simp add: x y)
  have "Fingerprint_spec loudTone 2
      = (let means = [17180917755 / 1048576, 17180901370 / 1048575]; med = spec_median means
         in horner_sum of_bool 2 (map (\<lambda>p. means ! (2 - 1 - p) > med) [0..<2]))"
    using ne unfolding Fingerprint_spec_def m by simp
  also have "\<dots> = 2" by code_simp
  finally show ?thesis .
qed

text \<open>
  C1. For every width \<open>b\<close> from 1 to 64 and every sample sequence of at most \<open>262144 * b\<close>
  samples, \<open>FingerprintFromSamples\<close> returns the reference fingerprint: 0 on empty input;
  otherwise the \<open>b\<close> contiguous blocks of size \<open>ceil(len / b)\<close> (a block past the end has mean
  0), the mean of the absolute values of each, the median of the means (the arithmetic mean
  of the two central sorted values when \<open>b\<close> is even), and bit \<open>b - 1 - i\<close> set iff the mean of
  block \<open>i\<close> is strictly greater than the median.
\<close>

theorem FingerprintFromSamples_refines_spec_on_short_blocks:
  assumes "1 \<le> b" and "b \<le> 64" and "length samples \<le> 262144 * nat b"
  shows "FingerprintFromSamples samples b = Fingerprint_spec samples (nat b)"
proof (cases "samples = []")
  case True
  then show ?thesis by (simp add: FingerprintFromSamples_def Fingerprint_spec_def)
next
  case False
  define n where "n = nat b"
  have n: "0 < n" "int n = b" unfolding n_def using assms(1) by simp_all
  have len: "length samples \<le> 262144 * n" unfolding n_def by (rule assms(3))
  have "FingerprintFromSamples samples (int n) = Fingerprint_spec samples n"
    by (rule bit_eqI) (simp only: bit_exact[OF False n(1) len] bit_Fingerprint_spec[OF False n(1)])
  then have "FingerprintFromSamples samples b = Fingerprint_spec samples n" by (simp only: n(2))
  then show ?thesis by (simp only: n_def)
qed

theorem FingerprintFromSamples_refines_spec_on_short_blocks_witness:
  "(1::int) \<le> 4 \<and> (4::int) \<le> 64
   \<and> length [1, 2, 3, 4, 5, 6, 7, 8 :: int16] \<le> 262144 * nat 4
   \<and> FingerprintFromSamples [1, 2, 3, 4, 5, 6, 7, 8] 4 = Fingerprint_spec [1, 2, 3, 4, 5, 6, 7, 8] (nat 4)
   \<and> Fingerprint_spec [1, 2, 3, 4, 5, 6, 7, 8] 4 = 3"
proof -
  have 1: "(1::int) \<le> 4" and 2: "(4::int) \<le> 64" by simp_all
  have 3: "length [1, 2, 3, 4, 5, 6, 7, 8 :: int16] \<le> 262144 * nat 4" by simp
  have 4: "Fingerprint_spec [1, 2, 3, 4, 5, 6, 7, 8] 4 = 3" by code_simp
  from FingerprintFromSamples_refines_spec_on_short_blocks[OF 1 2 3] 1 2 3 4
  show ?thesis by (intro conjI)
qed

text \<open>
  On longer blocks the rounding of the float64 means and of their midpoint can turn a
  strict comparison into an equality. In \<open>loudTone\<close>, two blocks of \<open>2^20\<close> samples, the mean
  of block 0 is above the median of the two means, so the reference fingerprint has bit 1
  set; the rounded median equals the rounded mean of block 0, and the code returns 0.
\<close>

theorem rounded_median_hides_a_bit:
  "FingerprintFromSamples loudTone 2 = 0 \<and> Fingerprint_spec loudTone 2 = 2"
  using loudTone_fingerprint Fingerprint_spec_loudTone by simp

end
